theory Spec2Isabelle
  imports Main "HOL-Library.AList" "HOL-Library.Word"
begin

section \<open>Decoding DWARF location expressions (elftools/dwarf/location_expr.py)\<close>

subsection \<open>Python values used by the module\<close>

text \<open>
  Python's \<open>'%s%s' % (prefix, index)\<close> formats the integer \<open>index\<close> in decimal, with a
  leading minus sign when it is negative. \<open>str\<close> is that conversion on unbounded integers.
\<close>

definition digit_char :: "nat \<Rightarrow> char" where
  "digit_char d = ''0123456789'' ! d"

fun str_nat :: "nat \<Rightarrow> string" where
  "str_nat n = (if n < 10 then [digit_char n] else str_nat (n div 10) @ [digit_char (n mod 10)])"

declare str_nat.simps [simp del]

definition str :: "int \<Rightarrow> string" where
  "str i = (if i < 0 then CHR ''-'' # str_nat (nat (- i)) else str_nat (nat i))"

text \<open>
  A Python \<open>dict\<close> is an association list read with \<open>map_of\<close>; the assignment
  \<open>d[k] = v\<close> is \<open>AList.update k v d\<close>, which replaces the value of a key that is present
  and appends the pair otherwise, and never raises.
\<close>

type_synonym ('k, 'v) dict = "('k \<times> 'v) list"

subsection \<open>The opcode table\<close>

text \<open>The literal \<open>dict(DW_OP_addr=0x03, ...)\<close> of lines 16 to 85, before the generated families.\<close>

definition DW_OP_static :: "(string, int) dict" where
  "DW_OP_static =
    [
     (''DW_OP_addr'', 0x03), (''DW_OP_deref'', 0x06),
     (''DW_OP_const1u'', 0x08), (''DW_OP_const1s'', 0x09),
     (''DW_OP_const2u'', 0x0a), (''DW_OP_const2s'', 0x0b),
     (''DW_OP_const4u'', 0x0c), (''DW_OP_const4s'', 0x0d),
     (''DW_OP_const8u'', 0x0e), (''DW_OP_const8s'', 0x0f),
     (''DW_OP_constu'', 0x10), (''DW_OP_consts'', 0x11),
     (''DW_OP_dup'', 0x12), (''DW_OP_drop'', 0x13),
     (''DW_OP_over'', 0x14), (''DW_OP_pick'', 0x15),
     (''DW_OP_swap'', 0x16), (''DW_OP_rot'', 0x17),
     (''DW_OP_xderef'', 0x18), (''DW_OP_abs'', 0x19),
     (''DW_OP_and'', 0x1a), (''DW_OP_div'', 0x1b),
     (''DW_OP_minus'', 0x1c), (''DW_OP_mod'', 0x1d),
     (''DW_OP_mul'', 0x1e), (''DW_OP_neg'', 0x1f),
     (''DW_OP_not'', 0x20), (''DW_OP_or'', 0x21),
     (''DW_OP_plus'', 0x22), (''DW_OP_plus_uconst'', 0x23),
     (''DW_OP_shl'', 0x24), (''DW_OP_shr'', 0x25),
     (''DW_OP_shra'', 0x26), (''DW_OP_xor'', 0x27),
     (''DW_OP_bra'', 0x28), (''DW_OP_eq'', 0x29),
     (''DW_OP_ge'', 0x2a), (''DW_OP_gt'', 0x2b),
     (''DW_OP_le'', 0x2c), (''DW_OP_lt'', 0x2d),
     (''DW_OP_ne'', 0x2e), (''DW_OP_skip'', 0x2f),
     (''DW_OP_regx'', 0x90), (''DW_OP_fbreg'', 0x91),
     (''DW_OP_bregx'', 0x92), (''DW_OP_piece'', 0x93),
     (''DW_OP_deref_size'', 0x94), (''DW_OP_xderef_size'', 0x95),
     (''DW_OP_nop'', 0x96), (''DW_OP_push_object_address'', 0x97),
     (''DW_OP_call2'', 0x98), (''DW_OP_call4'', 0x99),
     (''DW_OP_call_ref'', 0x9a), (''DW_OP_form_tls_address'', 0x9b),
     (''DW_OP_call_frame_cfa'', 0x9c), (''DW_OP_bit_piece'', 0x9d),
     (''DW_OP_implicit_value'', 0x9e), (''DW_OP_stack_value'', 0x9f),
     (''DW_OP_GNU_push_tls_address'', 0xe0), (''DW_OP_GNU_uninit'', 0xf0),
     (''DW_OP_GNU_encoded_addr'', 0xf1), (''DW_OP_GNU_implicit_pointer'', 0xf2),
     (''DW_OP_GNU_entry_value'', 0xf3), (''DW_OP_GNU_const_type'', 0xf4),
     (''DW_OP_GNU_regval_type'', 0xf5), (''DW_OP_GNU_deref_type'', 0xf6),
     (''DW_OP_GNU_convert'', 0xf7), (''DW_OP_GNU_reinterpret'', 0xf9)
    ]"

text \<open>
  \<open>_generate_dynamic_values(map, prefix, index_start, index_end, value_start)\<close>: for every
  index of \<open>range(index_start, index_end + 1)\<close>, in order, \<open>map[prefix + str(index)]\<close> is
  assigned \<open>value_start + index - index_start\<close>. The source mutates \<open>map\<close>; the model
  returns the new dictionary.
\<close>

definition generate_dynamic_values ::
  "(string, int) dict \<Rightarrow> string \<Rightarrow> int \<Rightarrow> int \<Rightarrow> int \<Rightarrow> (string, int) dict" where
  "generate_dynamic_values map0 prefix index_start index_end value_start =
     fold (\<lambda>index m. AList.update (prefix @ str index) (value_start + index - index_start) m)
       [index_start..index_end] map0"

text \<open>The three calls of lines 97 to 99, applied to the literal in that order.\<close>

definition DW_OP_name2opcode :: "(string, int) dict" where
  "DW_OP_name2opcode =
     generate_dynamic_values
       (generate_dynamic_values
          (generate_dynamic_values DW_OP_static ''DW_OP_lit'' 0 31 0x30)
          ''DW_OP_reg'' 0 31 0x50)
       ''DW_OP_breg'' 0 31 0x70"

text \<open>
  \<open>dict((v, k) for k, v in items)\<close>: every pair is entered reversed, a later pair replacing
  an earlier one with the same value. Python 2 fixes no iteration order for a dictionary,
  so the inversion is defined for any listing \<open>items\<close> of the pairs; the module's table
  inverts \<open>DW_OP_name2opcode\<close>.
\<close>

definition invert_items :: "('k, 'v) dict \<Rightarrow> ('v, 'k) dict" where
  "invert_items items = fold (\<lambda>(k, v) m. AList.update v k m) items []"

definition DW_OP_opcode2name :: "(int, string) dict" where
  "DW_OP_opcode2name = invert_items DW_OP_name2opcode"

subsection \<open>Streams, the codec and the state of a visitor\<close>

type_synonym byte = "8 word"

text \<open>
  A file-like object with \<open>read\<close> and \<open>seek\<close>: its bytes and the current position.
  \<open>read(1)\<close> returns the byte at the position and advances by one, or the empty string,
  leaving the position alone, when the position is at or beyond the end.
\<close>

record stream =
  data :: "byte list"
  pos :: nat

definition read1 :: "stream \<Rightarrow> byte option \<times> stream" where
  "read1 s = (if pos s < length (data s) then (Some (data s ! pos s), s\<lparr>pos := pos s + 1\<rparr>)
              else (None, s))"

text \<open>The bytes not yet read.\<close>

definition rest :: "stream \<Rightarrow> byte list" where
  "rest s = drop (pos s) (data s)"

text \<open>\<open>StringIO(string)\<close>: a new stream over the given bytes, at position 0.\<close>

definition StringIO :: "byte list \<Rightarrow> stream" where
  "StringIO bs = \<lparr>data = bs, pos = 0\<rparr>"

datatype error = KeyError | NotImplementedError | AttributeError | ELFParseError | ValueError

text \<open>
  Python's \<open>chr\<close> and \<open>ord\<close> on the characters of a byte string: \<open>chr(i)\<close> is the character
  with ordinal \<open>i\<close> and raises \<open>ValueError\<close> outside \<open>range(256)\<close>; \<open>ord\<close> is \<open>uint\<close>.
\<close>

definition chr :: "int \<Rightarrow> error + byte" where
  "chr i = (if 0 \<le> i \<and> i < 256 then Inr (word_of_int i) else Inl ValueError)"

text \<open>
  Modelled from the spec: \<open>bytelist2string\<close> of \<open>common/utils.py\<close>, which is not among the
  sources. It turns a finite sequence of byte values, a Python list of integers, into the
  string of those bytes, in the same order, each character made by \<open>chr\<close>.
\<close>

fun bytelist2string :: "int list \<Rightarrow> error + byte list" where
  "bytelist2string [] = Inr []"
| "bytelist2string (b # bytelist) =
     (case chr b of
        Inl e \<Rightarrow> Inl e
      | Inr c \<Rightarrow>
          (case bytelist2string bytelist of
             Inl e \<Rightarrow> Inl e
           | Inr string \<Rightarrow> Inr (c # string)))"

text \<open>The structs the dispatch table asks \<open>self.structs\<close> for.\<close>

datatype struct =
    Dwarf_target_addr
  | Dwarf_uint8 | Dwarf_int8
  | Dwarf_uint16 | Dwarf_int16
  | Dwarf_uint32 | Dwarf_int32
  | Dwarf_uint64 | Dwarf_int64
  | Dwarf_uleb128 | Dwarf_sleb128

text \<open>
  The layout of each struct belongs to the caller's \<open>structs\<close> object, which is not part of
  this module: it is a parameter, giving for each struct a codec that, from the bytes not
  yet read, either yields the decoded value and the number of bytes it took (\<open>Inr\<close>), or
  fails after taking some number of bytes (\<open>Inl\<close>).
\<close>

type_synonym codec = "byte list \<Rightarrow> nat + (int \<times> nat)"

text \<open>
  Modelled from the spec: \<open>struct_parse\<close> of \<open>common/utils.py\<close>, which is not among the
  sources. It runs the codec at the current position and advances the position by the
  bytes consumed; a codec failure, or a request for more bytes than remain, is a parse
  error and never a silent truncation. The error comes with the stream as the failed
  read left it: advanced by what was taken, at most to the end.
\<close>

definition struct_parse :: "codec \<Rightarrow> stream \<Rightarrow> (error \<times> stream) + (int \<times> stream)" where
  "struct_parse c s =
     (case c (rest s) of
        Inl k \<Rightarrow> Inl (ELFParseError, s\<lparr>pos := pos s + min k (length (rest s))\<rparr>)
      | Inr (x, n) \<Rightarrow>
          if n \<le> length (rest s) then Inr (x, s\<lparr>pos := pos s + n\<rparr>)
          else Inl (ELFParseError, s\<lparr>pos := pos s + length (rest s)\<rparr>))"

text \<open>
  The attributes of a visitor that decoding reads and writes, with those a subclass adds
  in \<open>consumer\<close>. \<open>None\<close> is Python's \<open>None\<close>, the value \<open>__init__\<close> gives \<open>stream\<close>,
  \<open>_cur_opcode\<close> and \<open>_cur_opcode_name\<close>.
\<close>

record 'u visitor =
  stream :: "stream option"
  cur_opcode :: "int option"
  cur_opcode_name :: "string option"
  cur_args :: "int list"
  consumer :: 'u

text \<open>
  The two methods a subclass overrides. \<open>_default_visitor(self, opcode, opcode_name)\<close> and
  \<open>_after_visit(self, opcode, opcode_name, *args)\<close> may read and assign every attribute of
  \<open>self\<close>, and return or raise. The arguments \<open>process_expr\<close> passes to \<open>_after_visit\<close> are
  the attributes \<open>_cur_opcode\<close>, \<open>_cur_opcode_name\<close> and \<open>_cur_args\<close> of the state the hook
  receives.
\<close>

text \<open>
  What a call of a method on the visitor gives: the visitor as the method left it when it
  returns (\<open>Inr\<close>), or the exception it raised together with the visitor as it was at that
  moment (\<open>Inl\<close>).
\<close>

type_synonym 'u result = "(error \<times> 'u visitor) + 'u visitor"

record 'u hooks =
  default_visitor :: "int \<Rightarrow> string \<Rightarrow> 'u visitor \<Rightarrow> 'u result"
  after_visit :: "'u visitor \<Rightarrow> 'u result"

text \<open>Lines 148 to 152: without an override both methods raise, having assigned nothing.\<close>

definition GenericLocationExprVisitor :: "'u hooks" where
  "GenericLocationExprVisitor =
     \<lparr>default_visitor = (\<lambda>opcode opcode_name v. Inl (NotImplementedError, v)),
      after_visit = (\<lambda>v. Inl (NotImplementedError, v))\<rparr>"

subsection \<open>The dispatch table\<close>

text \<open>
  The functions \<open>_init_dispatch_table\<close> stores: the method \<open>_visit_OP_with_no_args\<close>, or
  the closure \<open>_make_visitor_for_struct\<close> returns for a struct.
\<close>

datatype rule = OP_with_no_args | Visitor_for_struct struct

text \<open>\<open>self.structs\<close> and \<open>self._dispatch_table\<close>, assigned once by \<open>__init__\<close>.\<close>

record decoder =
  structs :: "struct \<Rightarrow> codec"
  dispatch_table :: "(int, rule) dict"

text \<open>Lines 154 to 163: what calling a stored function does to the visitor.\<close>

fun visit :: "decoder \<Rightarrow> rule \<Rightarrow> int \<Rightarrow> string \<Rightarrow> 'u visitor \<Rightarrow> 'u result" where
  "visit d OP_with_no_args opcode opcode_name v = Inr (v\<lparr>cur_args := []\<rparr>)"
| "visit d (Visitor_for_struct st) opcode opcode_name v =
     (case stream v of
        None \<Rightarrow> Inl (AttributeError, v)
      | Some s \<Rightarrow>
          (case struct_parse (structs d st) s of
             Inl (e, s') \<Rightarrow> Inl (e, v\<lparr>stream := Some s'\<rparr>)
           | Inr (x, s') \<Rightarrow> Inr (v\<lparr>stream := Some s', cur_args := [x]\<rparr>)))"

text \<open>
  \<open>add(opcode_name, func)\<close>: \<open>self._dispatch_table[DW_OP_name2opcode[opcode_name]] = func\<close>;
  the lookup of a name the opcode table lacks raises.
\<close>

definition add :: "string \<Rightarrow> rule \<Rightarrow> (int, rule) dict \<Rightarrow> error + (int, rule) dict" where
  "add opcode_name func t =
     (case map_of DW_OP_name2opcode opcode_name of
        None \<Rightarrow> Inl KeyError
      | Some opcode \<Rightarrow> Inr (AList.update opcode func t))"

fun add_each :: "(string \<times> rule) list \<Rightarrow> (int, rule) dict \<Rightarrow> error + (int, rule) dict" where
  "add_each [] t = Inr t"
| "add_each ((opcode_name, func) # es) t =
     (case add opcode_name func t of Inl e \<Rightarrow> Inl e | Inr t' \<Rightarrow> add_each es t')"

text \<open>The calls of \<open>add\<close> that lines 170 to 215 make, in their order.\<close>

definition dispatch_entries :: "(string \<times> rule) list" where
  "dispatch_entries =
     map (\<lambda>op. (op, OP_with_no_args))
       [''DW_OP_deref'', ''DW_OP_dup'', ''DW_OP_drop'', ''DW_OP_over'',
        ''DW_OP_swap'', ''DW_OP_rot'', ''DW_OP_xderef'', ''DW_OP_abs'',
        ''DW_OP_and'', ''DW_OP_div'', ''DW_OP_minus'', ''DW_OP_mod'',
        ''DW_OP_mul'', ''DW_OP_neg'', ''DW_OP_not'', ''DW_OP_or'',
        ''DW_OP_eq'', ''DW_OP_ge'', ''DW_OP_gt'', ''DW_OP_le'', ''DW_OP_lt'',
        ''DW_OP_ne'', ''DW_OP_plus'', ''DW_OP_shl'', ''DW_OP_shr'',
        ''DW_OP_shra'']
     @ [(''DW_OP_addr'', Visitor_for_struct Dwarf_target_addr),
        (''DW_OP_const1u'', Visitor_for_struct Dwarf_uint8),
        (''DW_OP_const1s'', Visitor_for_struct Dwarf_int8),
        (''DW_OP_const2u'', Visitor_for_struct Dwarf_uint16),
        (''DW_OP_const2s'', Visitor_for_struct Dwarf_int16),
        (''DW_OP_const4u'', Visitor_for_struct Dwarf_uint32),
        (''DW_OP_const4s'', Visitor_for_struct Dwarf_int32),
        (''DW_OP_const8u'', Visitor_for_struct Dwarf_uint64),
        (''DW_OP_const8s'', Visitor_for_struct Dwarf_int64),
        (''DW_OP_constu'', Visitor_for_struct Dwarf_uleb128),
        (''DW_OP_consts'', Visitor_for_struct Dwarf_sleb128),
        (''DW_OP_plus_uconst'', Visitor_for_struct Dwarf_uleb128),
        (''DW_OP_pick'', Visitor_for_struct Dwarf_uint8),
        (''DW_OP_bra'', Visitor_for_struct Dwarf_int16),
        (''DW_OP_skip'', Visitor_for_struct Dwarf_int16)]
     @ concat (map (\<lambda>i.
         [(''DW_OP_lit'' @ str i, OP_with_no_args),
          (''DW_OP_reg'' @ str i, OP_with_no_args),
          (''DW_OP_breg'' @ str i, Visitor_for_struct Dwarf_sleb128)]) [0..31])"

definition init_dispatch_table :: "error + (int, rule) dict" where
  "init_dispatch_table = add_each dispatch_entries []"

text \<open>
  \<open>__init__(self, structs)\<close>; \<open>u\<close> holds the attributes a subclass constructor adds.
\<close>

definition init :: "(struct \<Rightarrow> codec) \<Rightarrow> 'u \<Rightarrow> error + (decoder \<times> 'u visitor)" where
  "init sts u =
     (case init_dispatch_table of
        Inl e \<Rightarrow> Inl e
      | Inr t \<Rightarrow>
          Inr (\<lparr>structs = sts, dispatch_table = t\<rparr>,
               \<lparr>stream = None, cur_opcode = None, cur_opcode_name = None,
                cur_args = [], consumer = u\<rparr>))"

text \<open>What \<open>self._dispatch_table.get(opcode)\<close> finds in a newly constructed visitor.\<close>

definition dispatch_get :: "int \<Rightarrow> error + rule option" where
  "dispatch_get opcode =
     (case init_dispatch_table of Inl e \<Rightarrow> Inl e | Inr t \<Rightarrow> Inr (map_of t opcode))"

subsection \<open>The decode loop\<close>

text \<open>
  One call of \<open>_after_visit\<close>: the opcode, the name and the operand list it is passed. The
  program keeps no list of these calls; the model collects them, in order, so that
  statements about which calls a run makes can be written down.
\<close>

type_synonym event = "int option \<times> string option \<times> int list"

definition call_of :: "'u visitor \<Rightarrow> event" where
  "call_of v = (cur_opcode v, cur_opcode_name v, cur_args v)"

text \<open>
  One pass through the body of \<open>while True\<close> (lines 128 to 146): the stream is exhausted,
  or an exception leaves the loop, with the state at that moment and the call of
  \<open>_after_visit\<close> made in this pass if there was one, or the pass completes with one call.
\<close>

datatype 'u step =
    Exhausted
  | Raise error "'u visitor" "event list"
  | Decoded "'u visitor" event

definition visitor_for ::
  "decoder \<Rightarrow> 'u hooks \<Rightarrow> int \<Rightarrow> int \<Rightarrow> string \<Rightarrow> 'u visitor \<Rightarrow> 'u result" where
  "visitor_for d h opcode =
     (case map_of (dispatch_table d) opcode of
        Some r \<Rightarrow> visit d r
      | None \<Rightarrow> default_visitor h)"

definition decode_step :: "decoder \<Rightarrow> 'u hooks \<Rightarrow> 'u visitor \<Rightarrow> 'u step" where
  "decode_step d h v =
     (case stream v of
        None \<Rightarrow> Raise AttributeError v []
      | Some s \<Rightarrow>
          (case read1 s of
             (None, s') \<Rightarrow> Exhausted
           | (Some byte, s') \<Rightarrow>
               let opcode = uint byte;
                   v1 = v\<lparr>stream := Some s', cur_opcode := Some opcode\<rparr>
               in
               (case map_of DW_OP_opcode2name opcode of
                  None \<Rightarrow> Raise KeyError v1 []
                | Some opcode_name \<Rightarrow>
                    let v2 = v1\<lparr>cur_opcode_name := Some opcode_name\<rparr> in
                    (case visitor_for d h opcode opcode opcode_name v2 of
                       Inl (e, v2') \<Rightarrow> Raise e v2' []
                     | Inr v3 \<Rightarrow>
                         (case after_visit h v3 of
                            Inl (e, v3') \<Rightarrow> Raise e v3' [call_of v3]
                          | Inr v4 \<Rightarrow> Decoded v4 (call_of v3))))))"

text \<open>
  How a call of \<open>process_expr\<close> ends: it returns, or an exception propagates to the caller.
\<close>

datatype outcome = Returned | Raised error

text \<open>
  The loop. Its result is how the call ended, the visitor as it was left, and the calls of
  \<open>_after_visit\<close> made, \<open>calls\<close> being those made before this pass. The result is \<open>None\<close>
  when the loop never ends.
\<close>

partial_function (option) process_loop ::
  "decoder \<Rightarrow> 'u hooks \<Rightarrow> 'u visitor \<Rightarrow> event list \<Rightarrow> (outcome \<times> 'u visitor \<times> event list) option"
where
  "process_loop d h v calls =
     (case decode_step d h v of
        Exhausted \<Rightarrow> Some (Returned, v, calls)
      | Raise e v' made \<Rightarrow> Some (Raised e, v', calls @ made)
      | Decoded v' call \<Rightarrow> process_loop d h v' (calls @ [call]))"

text \<open>
  The two kinds of argument \<open>process_expr\<close> tells apart (lines 122 to 125): an object with
  \<open>read\<close> and \<open>seek\<close>, used as it is and from the position it has, or a list of byte
  values, a Python list of integers, turned into a string and wrapped in a new stream;
  when the conversion raises, \<open>self.stream\<close> is not assigned. The attributes
  \<open>_cur_opcode\<close>, \<open>_cur_opcode_name\<close> and \<open>_cur_args\<close> are not assigned before the loop: a
  call starts with what the previous call left.
\<close>

datatype expr = File_like stream | Byte_list "int list"

definition process_expr ::
  "decoder \<Rightarrow> 'u hooks \<Rightarrow> 'u visitor \<Rightarrow> expr \<Rightarrow> (outcome \<times> 'u visitor \<times> event list) option" where
  "process_expr d h v expr =
     (case expr of
        File_like s \<Rightarrow> process_loop d h (v\<lparr>stream := Some s\<rparr>) []
      | Byte_list bytelist \<Rightarrow>
          (case bytelist2string bytelist of
             Inl e \<Rightarrow> Some (Raised e, v, [])
           | Inr string \<Rightarrow> process_loop d h (v\<lparr>stream := Some (StringIO string)\<rparr>) []))"

subsection \<open>Notions used to state the properties\<close>

text \<open>The value of a decimal digit, and of a string of decimal digits.\<close>

definition digit_val :: "char \<Rightarrow> nat" where
  "digit_val c = of_char c - 48"

definition decimal_val :: "string \<Rightarrow> nat" where
  "decimal_val cs = foldl (\<lambda>a c. 10 * a + digit_val c) 0 cs"

text \<open>The number of bytes of the visitor's stream that lie at or after its position.\<close>

definition remaining :: "'u visitor \<Rightarrow> nat" where
  "remaining v = (case stream v of None \<Rightarrow> 0 | Some s \<Rightarrow> length (data s) - pos s)"

text \<open>
  Examples of what a caller supplies: a codec that reads one unsigned byte, and hooks that
  return at once and assign nothing.
\<close>

definition one_byte :: codec where
  "one_byte bs = (case bs of [] \<Rightarrow> Inl 0 | b # _ \<Rightarrow> Inr (uint b, 1))"

definition no_op :: "'u hooks" where
  "no_op = \<lparr>default_visitor = (\<lambda>opcode opcode_name v. Inr v), after_visit = (\<lambda>v. Inr v)\<rparr>"

text \<open>
  A consumer that overrides \<open>_after_visit\<close> alone, with a method that calls
  \<open>self.stream.seek(0)\<close> and returns.
\<close>

definition rewinding :: "'u hooks" where
  "rewinding =
     \<lparr>default_visitor = (\<lambda>opcode opcode_name v. Inl (NotImplementedError, v)),
      after_visit = (\<lambda>v. Inr (v\<lparr>stream := map_option (\<lambda>s. s\<lparr>pos := 0\<rparr>) (stream v)\<rparr>))\<rparr>"

text \<open>
  The decoder and the visitor state that \<open>__init__\<close> gives a visitor constructed with the
  one-byte codec for every struct and no attributes of its own.
\<close>

definition example_decoder :: decoder where
  "example_decoder =
     \<lparr>structs = (\<lambda>st. one_byte),
      dispatch_table = (case init_dispatch_table of Inl e \<Rightarrow> [] | Inr t \<Rightarrow> t)\<rparr>"

definition new_visitor :: "unit visitor" where
  "new_visitor =
     \<lparr>stream = None, cur_opcode = None, cur_opcode_name = None, cur_args = [], consumer = ()\<rparr>"

text \<open>
  An instruction as it lies in the input: the opcode byte and the operand bytes that
  follow it. \<open>encode\<close> is the byte sequence of a list of instructions, one after the other.
\<close>

type_synonym instruction = "byte \<times> byte list"

definition encode :: "instruction list \<Rightarrow> byte list" where
  "encode ins = concat (map (\<lambda>(b, operands). b # operands) ins)"

text \<open>
  What a consumer's default visitor reads: for an opcode and the bytes that follow it, the
  number of operand bytes it takes, or \<open>None\<close> when it cannot read them.
\<close>

type_synonym layout = "int \<Rightarrow> byte list \<Rightarrow> nat option"

text \<open>The layout of a default visitor that reads no operand.\<close>

definition no_operands :: layout where
  "no_operands opcode bs = Some 0"

text \<open>
  The number of operand bytes the rule of an opcode consumes when the bytes \<open>bs\<close> follow
  the opcode: none for \<open>_visit_OP_with_no_args\<close>, what the codec takes for a struct, what
  the consumer's default visitor takes when the dispatch table has no entry.
\<close>

definition operand_bytes :: "decoder \<Rightarrow> layout \<Rightarrow> int \<Rightarrow> byte list \<Rightarrow> nat option" where
  "operand_bytes d dflt opcode bs =
     (case map_of (dispatch_table d) opcode of
        None \<Rightarrow> dflt opcode bs
      | Some OP_with_no_args \<Rightarrow> Some 0
      | Some (Visitor_for_struct st) \<Rightarrow>
          (case structs d st bs of
             Inl k \<Rightarrow> None
           | Inr (x, n) \<Rightarrow> if n \<le> length bs then Some n else None))"

text \<open>
  A list of valid instructions: every opcode is in the opcode table and is followed by
  exactly the operand bytes its rule consumes.
\<close>

fun valid_instructions :: "decoder \<Rightarrow> layout \<Rightarrow> instruction list \<Rightarrow> bool" where
  "valid_instructions d dflt [] = True"
| "valid_instructions d dflt ((b, operands) # ins) =
     (map_of DW_OP_opcode2name (uint b) \<noteq> None
      \<and> operand_bytes d dflt (uint b) (operands @ encode ins) = Some (length operands)
      \<and> valid_instructions d dflt ins)"

section \<open>Properties\<close>

subsection \<open>Decimal strings\<close>

lemma lt10_cases: "(d::nat) < 10 \<Longrightarrow> d \<in> {0,1,2,3,4,5,6,7,8,9}"
  by auto

lemma digit_val_digit_char: "d < 10 \<Longrightarrow> digit_val (digit_char d) = d"
  using lt10_cases [of d] by (auto simp: digit_val_def digit_char_def)

lemma digit_char_in: "d < 10 \<Longrightarrow> digit_char d \<in> set ''0123456789''"
  using lt10_cases [of d] by (auto simp: digit_char_def)

lemma decimal_val_str_nat: "decimal_val (str_nat n) = n"
proof (induction n rule: str_nat.induct)
  case (1 n)
  show ?case
  proof (cases "n < 10")
    case True
    then show ?thesis
      by (subst str_nat.simps) (simp add: decimal_val_def digit_val_digit_char)
  next
    case False
    with 1 have "decimal_val (str_nat (n div 10)) = n div 10" by simp
    with False show ?thesis
      by (subst str_nat.simps) (simp add: decimal_val_def digit_val_digit_char)
  qed
qed

lemma str_nat_inj: "str_nat m = str_nat n \<Longrightarrow> m = n"
  by (metis decimal_val_str_nat)

lemma str_nat_chars: "set (str_nat n) \<subseteq> set ''0123456789''"
proof (induction n rule: str_nat.induct)
  case (1 n)
  show ?case
  proof (cases "n < 10")
    case True
    then show ?thesis
      using digit_char_in [of n] by (subst str_nat.simps) simp
  next
    case False
    with 1 have "set (str_nat (n div 10)) \<subseteq> set ''0123456789''" by simp
    moreover have "digit_char (n mod 10) \<in> set ''0123456789''"
      by (rule digit_char_in) simp
    ultimately show ?thesis using False
      by (subst str_nat.simps) simp
  qed
qed

lemma str_nat_not_Nil: "str_nat n \<noteq> []"
  by (subst str_nat.simps) simp

lemma str_inj: "str i = str j \<Longrightarrow> i = j"
proof -
  assume eq: "str i = str j"
  have nm: "CHR ''-'' \<notin> set (str_nat n)" for n
    using str_nat_chars [of n] by auto
  have hd_nm: "str_nat n \<noteq> CHR ''-'' # cs" for n cs
  proof
    assume "str_nat n = CHR ''-'' # cs"
    then have "CHR ''-'' \<in> set (str_nat n)" by simp
    with nm [of n] show False by simp
  qed
  show ?thesis
  proof (cases "i < 0")
    case True
    note i = this
    show ?thesis
    proof (cases "j < 0")
      case True
      with i eq have "str_nat (nat (- i)) = str_nat (nat (- j))" by (simp add: str_def)
      then have "nat (- i) = nat (- j)" by (rule str_nat_inj)
      with i True show ?thesis by simp
    next
      case False
      with i eq have "str_nat (nat j) = CHR ''-'' # str_nat (nat (- i))" by (simp add: str_def)
      with hd_nm show ?thesis by blast
    qed
  next
    case False
    note i = this
    show ?thesis
    proof (cases "j < 0")
      case True
      with i eq have "str_nat (nat i) = CHR ''-'' # str_nat (nat (- j))" by (simp add: str_def)
      with hd_nm show ?thesis by blast
    next
      case False
      with i eq have "str_nat (nat i) = str_nat (nat j)" by (simp add: str_def)
      then have "nat i = nat j" by (rule str_nat_inj)
      with i False show ?thesis by simp
    qed
  qed
qed

lemma str_chars: "set (str i) \<subseteq> set ''-0123456789''"
proof -
  have "set (str_nat n) \<subseteq> set ''-0123456789''" for n
    using str_nat_chars [of n] by (simp add: subset_insertI2)
  then show ?thesis by (simp add: str_def)
qed

lemma str_not_x: "str i \<noteq> ''x''"
proof
  assume "str i = ''x''"
  then have "CHR ''x'' \<in> set (str i)" by simp
  with str_chars [of i] show False by auto
qed

subsection \<open>The opcode table\<close>

lemma fold_update_other:
  "k \<notin> f ` set xs \<Longrightarrow>
   map_of (fold (\<lambda>x m. AList.update (f x) (g x) m) xs m0) k = map_of m0 k"
  by (induction xs arbitrary: m0) (auto simp: update_conv')

lemma fold_update_hit:
  "inj_on f (set xs) \<Longrightarrow> x \<in> set xs \<Longrightarrow>
   map_of (fold (\<lambda>x m. AList.update (f x) (g x) m) xs m0) (f x) = Some (g x)"
proof (induction xs arbitrary: m0)
  case Nil
  then show ?case by simp
next
  case (Cons y ys)
  show ?case
  proof (cases "x \<in> set ys")
    case True
    with Cons show ?thesis by simp
  next
    case False
    with Cons.prems have xy: "x = y" and "f y \<notin> f ` set ys"
      by (auto simp: inj_on_def)
    then show ?thesis
      by (simp add: fold_update_other update_conv')
  qed
qed

lemma generate_hit:
  "index_start \<le> i \<Longrightarrow> i \<le> index_end \<Longrightarrow>
   map_of (generate_dynamic_values m prefix index_start index_end value_start) (prefix @ str i)
     = Some (value_start + i - index_start)"
  unfolding generate_dynamic_values_def
  by (rule fold_update_hit) (auto simp: inj_on_def dest: str_inj)

lemma generate_other:
  assumes "\<And>i. index_start \<le> i \<Longrightarrow> i \<le> index_end \<Longrightarrow> k \<noteq> prefix @ str i"
  shows "map_of (generate_dynamic_values m prefix index_start index_end value_start) k = map_of m k"
proof -
  have "k \<notin> (\<lambda>index. prefix @ str index) ` set [index_start..index_end]"
    using assms by fastforce
  then show ?thesis
    unfolding generate_dynamic_values_def by (rule fold_update_other)
qed

lemma generate_cases:
  "map_of (generate_dynamic_values m prefix index_start index_end value_start) k = Some c \<Longrightarrow>
   (\<exists>i. index_start \<le> i \<and> i \<le> index_end \<and> k = prefix @ str i \<and> c = value_start + i - index_start)
   \<or> map_of m k = Some c"
  using generate_hit [of index_start _ index_end m prefix value_start]
        generate_other [of index_start index_end k prefix m value_start]
  by (metis option.inject)

lemma prefix_apart [simp]:
  "''DW_OP_lit'' @ x \<noteq> ''DW_OP_reg'' @ y" "''DW_OP_lit'' @ x \<noteq> ''DW_OP_breg'' @ y"
  "''DW_OP_reg'' @ x \<noteq> ''DW_OP_lit'' @ y" "''DW_OP_reg'' @ x \<noteq> ''DW_OP_breg'' @ y"
  "''DW_OP_breg'' @ x \<noteq> ''DW_OP_lit'' @ y" "''DW_OP_breg'' @ x \<noteq> ''DW_OP_reg'' @ y"
  by simp_all

lemma name2opcode_lit:
  assumes "0 \<le> i" "i \<le> 31"
  shows "map_of DW_OP_name2opcode (''DW_OP_lit'' @ str i) = Some (0x30 + i)"
proof -
  have "map_of DW_OP_name2opcode (''DW_OP_lit'' @ str i)
      = map_of (generate_dynamic_values DW_OP_static ''DW_OP_lit'' 0 31 0x30) (''DW_OP_lit'' @ str i)"
    unfolding DW_OP_name2opcode_def
    by (simp only: generate_other [OF prefix_apart(2)] generate_other [OF prefix_apart(1)])
  also have "\<dots> = Some (0x30 + i - 0)"
    using assms by (rule generate_hit)
  finally show ?thesis by simp
qed

lemma name2opcode_reg:
  assumes "0 \<le> i" "i \<le> 31"
  shows "map_of DW_OP_name2opcode (''DW_OP_reg'' @ str i) = Some (0x50 + i)"
proof -
  have "map_of DW_OP_name2opcode (''DW_OP_reg'' @ str i)
      = map_of (generate_dynamic_values (generate_dynamic_values DW_OP_static ''DW_OP_lit'' 0 31 0x30)
          ''DW_OP_reg'' 0 31 0x50) (''DW_OP_reg'' @ str i)"
    unfolding DW_OP_name2opcode_def
    by (simp only: generate_other [OF prefix_apart(4)])
  also have "\<dots> = Some (0x50 + i - 0)"
    using assms by (rule generate_hit)
  finally show ?thesis by simp
qed

lemma name2opcode_breg:
  assumes "0 \<le> i" "i \<le> 31"
  shows "map_of DW_OP_name2opcode (''DW_OP_breg'' @ str i) = Some (0x70 + i)"
proof -
  have "map_of DW_OP_name2opcode (''DW_OP_breg'' @ str i) = Some (0x70 + i - 0)"
    unfolding DW_OP_name2opcode_def using assms by (rule generate_hit)
  then show ?thesis by simp
qed

lemma name2opcode_cases:
  assumes "map_of DW_OP_name2opcode k = Some c"
  shows "(\<exists>i. 0 \<le> i \<and> i \<le> 31 \<and> k = ''DW_OP_lit'' @ str i \<and> c = 0x30 + i)
       \<or> (\<exists>i. 0 \<le> i \<and> i \<le> 31 \<and> k = ''DW_OP_reg'' @ str i \<and> c = 0x50 + i)
       \<or> (\<exists>i. 0 \<le> i \<and> i \<le> 31 \<and> k = ''DW_OP_breg'' @ str i \<and> c = 0x70 + i)
       \<or> map_of DW_OP_static k = Some c"
  using assms unfolding DW_OP_name2opcode_def
  by (auto dest!: generate_cases)

lemma static_codes_distinct: "distinct (map snd DW_OP_static)"
  by (simp add: DW_OP_static_def)

lemma static_names_distinct: "distinct (map fst DW_OP_static)"
  by (simp add: DW_OP_static_def)

lemma static_codes_range: "\<forall>(k, c) \<in> set DW_OP_static. c < 0x30 \<or> 0x8f < c"
  by (simp add: DW_OP_static_def)

lemma static_inj:
  assumes "map_of DW_OP_static k = Some c" "map_of DW_OP_static k' = Some c"
  shows "k = k'"
proof -
  from assms have "(k, c) \<in> set DW_OP_static" "(k', c) \<in> set DW_OP_static"
    by (auto dest: map_of_SomeD)
  moreover have "inj_on snd (set DW_OP_static)"
    using static_codes_distinct by (simp add: distinct_map)
  ultimately show ?thesis
    using inj_onD [of snd "set DW_OP_static" "(k, c)" "(k', c)"] by simp
qed

lemma static_range: "map_of DW_OP_static k = Some c \<Longrightarrow> c < 0x30 \<or> 0x8f < c"
  using static_codes_range by (auto dest: map_of_SomeD)

lemma name2opcode_inj:
  assumes "map_of DW_OP_name2opcode k = Some c" "map_of DW_OP_name2opcode k' = Some c"
  shows "k = k'"
  using name2opcode_cases [OF assms(1)] name2opcode_cases [OF assms(2)]
  by (elim disjE exE conjE) (auto dest: static_range static_inj)

lemma fold_update_distinct:
  "distinct (map fst m0) \<Longrightarrow>
   distinct (map fst (fold (\<lambda>x m. AList.update (f x) (g x) m) xs m0))"
  by (induction xs arbitrary: m0) (simp_all add: distinct_update)

lemma name2opcode_distinct: "distinct (map fst DW_OP_name2opcode)"
  unfolding DW_OP_name2opcode_def generate_dynamic_values_def
  by (intro fold_update_distinct static_names_distinct)

lemma name2opcode_iff: "map_of DW_OP_name2opcode k = Some c \<longleftrightarrow> (k, c) \<in> set DW_OP_name2opcode"
  using name2opcode_distinct by simp

lemma invert_items_iff:
  assumes "\<And>k k' c. (k, c) \<in> set items \<Longrightarrow> (k', c) \<in> set items \<Longrightarrow> k = k'"
  shows "map_of (invert_items items) c = Some k \<longleftrightarrow> (k, c) \<in> set items"
  using assms
proof (induction items rule: rev_induct)
  case Nil
  then show ?case by (simp add: invert_items_def)
next
  case (snoc x xs)
  obtain k0 c0 where x: "x = (k0, c0)" by (cases x)
  have step: "map_of (invert_items (xs @ [x])) c = (if c = c0 then Some k0 else map_of (invert_items xs) c)"
    by (simp add: invert_items_def x update_conv')
  have IH: "map_of (invert_items xs) c = Some k \<longleftrightarrow> (k, c) \<in> set xs"
    by (rule snoc.IH) (auto intro: snoc.prems)
  show ?case
  proof (cases "c = c0")
    case True
    with step have "map_of (invert_items (xs @ [x])) c = Some k0" by simp
    moreover have "(k, c) \<in> set (xs @ [x]) \<Longrightarrow> k = k0"
      using snoc.prems [of k c0 k0] True by (simp add: x)
    ultimately show ?thesis using True by (auto simp: x)
  next
    case False
    with step IH show ?thesis by (simp add: x)
  qed
qed

lemma opcode2name_iff:
  "map_of DW_OP_opcode2name c = Some k \<longleftrightarrow> map_of DW_OP_name2opcode k = Some c"
  unfolding DW_OP_opcode2name_def name2opcode_iff
  by (rule invert_items_iff) (auto simp: name2opcode_iff [symmetric] dest: name2opcode_inj)

lemma static_not_family:
  assumes "(k, c) \<in> set DW_OP_static"
  shows "k \<noteq> ''DW_OP_lit'' @ str i" "k \<noteq> ''DW_OP_reg'' @ str i" "k \<noteq> ''DW_OP_breg'' @ str i"
  using assms str_not_x [of i] str_not_x [of i, symmetric]
  by (auto simp: DW_OP_static_def)

lemma static_lookup:
  assumes "map_of DW_OP_static k = Some c"
  shows "map_of DW_OP_name2opcode k = Some c"
proof -
  from assms have "(k, c) \<in> set DW_OP_static" by (rule map_of_SomeD)
  then have "map_of DW_OP_name2opcode k = map_of DW_OP_static k"
    unfolding DW_OP_name2opcode_def
    by (simp only: generate_other [OF static_not_family(3)] generate_other [OF static_not_family(2)]
          generate_other [OF static_not_family(1)])
  with assms show ?thesis by simp
qed

subsection \<open>The dispatch table\<close>

lemma static_defined:
  assumes "k \<in> fst ` set DW_OP_static"
  shows "\<exists>c. map_of DW_OP_name2opcode k = Some c"
proof -
  from assms obtain c where "(k, c) \<in> set DW_OP_static" by auto
  with static_names_distinct have "map_of DW_OP_static k = Some c" by simp
  then show ?thesis by (blast intro: static_lookup)
qed

lemma in_tagged: "(n, r) \<in> set (map (\<lambda>op. (op, t)) ns) \<longleftrightarrow> n \<in> set ns \<and> r = t"
  by auto

lemma in_concat_map: "x \<in> set (concat (map F xs)) \<longleftrightarrow> (\<exists>i. i \<in> set xs \<and> x \<in> set (F i))"
  by auto

lemma in_three: "x \<in> set [a, b, c] \<longleftrightarrow> x = a \<or> x = b \<or> x = c"
  by auto

lemma in_family:
  "(n, r) \<in> set (concat (map (\<lambda>i.
         [(''DW_OP_lit'' @ str i, OP_with_no_args),
          (''DW_OP_reg'' @ str i, OP_with_no_args),
          (''DW_OP_breg'' @ str i, Visitor_for_struct Dwarf_sleb128)]) [0..31]))
   \<longleftrightarrow> (\<exists>i. 0 \<le> i \<and> i \<le> 31 \<and>
        (n = ''DW_OP_lit'' @ str i \<and> r = OP_with_no_args
         \<or> n = ''DW_OP_reg'' @ str i \<and> r = OP_with_no_args
         \<or> n = ''DW_OP_breg'' @ str i \<and> r = Visitor_for_struct Dwarf_sleb128))"
  unfolding in_concat_map in_three set_upto atLeastAtMost_iff prod.inject conj_assoc
  by (rule refl)

lemma dispatch_entries_iff:
  "(n, r) \<in> set dispatch_entries \<longleftrightarrow>
     (n \<in> set [''DW_OP_deref'', ''DW_OP_dup'', ''DW_OP_drop'', ''DW_OP_over'',
        ''DW_OP_swap'', ''DW_OP_rot'', ''DW_OP_xderef'', ''DW_OP_abs'',
        ''DW_OP_and'', ''DW_OP_div'', ''DW_OP_minus'', ''DW_OP_mod'',
        ''DW_OP_mul'', ''DW_OP_neg'', ''DW_OP_not'', ''DW_OP_or'',
        ''DW_OP_eq'', ''DW_OP_ge'', ''DW_OP_gt'', ''DW_OP_le'', ''DW_OP_lt'',
        ''DW_OP_ne'', ''DW_OP_plus'', ''DW_OP_shl'', ''DW_OP_shr'',
        ''DW_OP_shra''] \<and> r = OP_with_no_args)
   \<or> (n, r) \<in> set [(''DW_OP_addr'', Visitor_for_struct Dwarf_target_addr),
        (''DW_OP_const1u'', Visitor_for_struct Dwarf_uint8),
        (''DW_OP_const1s'', Visitor_for_struct Dwarf_int8),
        (''DW_OP_const2u'', Visitor_for_struct Dwarf_uint16),
        (''DW_OP_const2s'', Visitor_for_struct Dwarf_int16),
        (''DW_OP_const4u'', Visitor_for_struct Dwarf_uint32),
        (''DW_OP_const4s'', Visitor_for_struct Dwarf_int32),
        (''DW_OP_const8u'', Visitor_for_struct Dwarf_uint64),
        (''DW_OP_const8s'', Visitor_for_struct Dwarf_int64),
        (''DW_OP_constu'', Visitor_for_struct Dwarf_uleb128),
        (''DW_OP_consts'', Visitor_for_struct Dwarf_sleb128),
        (''DW_OP_plus_uconst'', Visitor_for_struct Dwarf_uleb128),
        (''DW_OP_pick'', Visitor_for_struct Dwarf_uint8),
        (''DW_OP_bra'', Visitor_for_struct Dwarf_int16),
        (''DW_OP_skip'', Visitor_for_struct Dwarf_int16)]
   \<or> (\<exists>i. 0 \<le> i \<and> i \<le> 31 \<and>
        (n = ''DW_OP_lit'' @ str i \<and> r = OP_with_no_args
         \<or> n = ''DW_OP_reg'' @ str i \<and> r = OP_with_no_args
         \<or> n = ''DW_OP_breg'' @ str i \<and> r = Visitor_for_struct Dwarf_sleb128))"
  unfolding dispatch_entries_def set_append Un_iff in_tagged in_family
  by (rule refl)

lemma add_each_result:
  assumes "\<forall>(n, r) \<in> set es. \<exists>c. map_of DW_OP_name2opcode n = Some c"
  shows "\<exists>t'. add_each es t = Inr t'
     \<and> (\<forall>c r. map_of t' c = Some r \<longrightarrow>
           (\<exists>n. (n, r) \<in> set es \<and> map_of DW_OP_name2opcode n = Some c) \<or> map_of t c = Some r)
     \<and> (\<forall>c. (\<exists>n r. (n, r) \<in> set es \<and> map_of DW_OP_name2opcode n = Some c) \<or> map_of t c \<noteq> None
           \<longrightarrow> map_of t' c \<noteq> None)"
  using assms
proof (induction es arbitrary: t)
  case Nil
  then show ?case by simp
next
  case (Cons e es)
  obtain n0 r0 where e: "e = (n0, r0)" by (cases e)
  from Cons.prems obtain c0 where c0: "map_of DW_OP_name2opcode n0 = Some c0"
    by (auto simp: e)
  let ?t1 = "AList.update c0 r0 t"
  have "\<forall>(n, r) \<in> set es. \<exists>c. map_of DW_OP_name2opcode n = Some c"
    using Cons.prems by simp
  from Cons.IH [OF this, of ?t1] obtain t' where
    t': "add_each es ?t1 = Inr t'"
    and snd: "\<And>c r. map_of t' c = Some r \<Longrightarrow>
           (\<exists>n. (n, r) \<in> set es \<and> map_of DW_OP_name2opcode n = Some c) \<or> map_of ?t1 c = Some r"
    and cmp: "\<And>c. (\<exists>n r. (n, r) \<in> set es \<and> map_of DW_OP_name2opcode n = Some c) \<or> map_of ?t1 c \<noteq> None
           \<Longrightarrow> map_of t' c \<noteq> None"
    by blast
  have 1: "add_each (e # es) t = Inr t'"
    by (simp add: e add_def c0 t')
  have 2: "(\<exists>n. (n, r) \<in> set (e # es) \<and> map_of DW_OP_name2opcode n = Some c) \<or> map_of t c = Some r"
    if "map_of t' c = Some r" for c r
    using snd [OF that] c0 by (auto simp: e update_conv' split: if_splits)
  have 3: "map_of t' c \<noteq> None"
    if "(\<exists>n r. (n, r) \<in> set (e # es) \<and> map_of DW_OP_name2opcode n = Some c) \<or> map_of t c \<noteq> None" for c
  proof (rule cmp)
    from that c0 show "(\<exists>n r. (n, r) \<in> set es \<and> map_of DW_OP_name2opcode n = Some c) \<or> map_of ?t1 c \<noteq> None"
      by (auto simp: e update_conv')
  qed
  from 1 2 3 show ?case by blast
qed

lemma family_defined:
  assumes "0 \<le> i" "i \<le> 31"
  shows "\<exists>c. map_of DW_OP_name2opcode (''DW_OP_lit'' @ str i) = Some c"
    "\<exists>c. map_of DW_OP_name2opcode (''DW_OP_reg'' @ str i) = Some c"
    "\<exists>c. map_of DW_OP_name2opcode (''DW_OP_breg'' @ str i) = Some c"
  using assms by (simp_all only: name2opcode_lit name2opcode_reg name2opcode_breg) simp_all

lemma no_args_in_static:
  "n \<in> set [''DW_OP_deref'', ''DW_OP_dup'', ''DW_OP_drop'', ''DW_OP_over'',
        ''DW_OP_swap'', ''DW_OP_rot'', ''DW_OP_xderef'', ''DW_OP_abs'',
        ''DW_OP_and'', ''DW_OP_div'', ''DW_OP_minus'', ''DW_OP_mod'',
        ''DW_OP_mul'', ''DW_OP_neg'', ''DW_OP_not'', ''DW_OP_or'',
        ''DW_OP_eq'', ''DW_OP_ge'', ''DW_OP_gt'', ''DW_OP_le'', ''DW_OP_lt'',
        ''DW_OP_ne'', ''DW_OP_plus'', ''DW_OP_shl'', ''DW_OP_shr'',
        ''DW_OP_shra''] \<Longrightarrow> n \<in> fst ` set DW_OP_static"
  by (auto simp: DW_OP_static_def)

lemma struct_in_static:
  "(n, r) \<in> set [(''DW_OP_addr'', Visitor_for_struct Dwarf_target_addr),
        (''DW_OP_const1u'', Visitor_for_struct Dwarf_uint8),
        (''DW_OP_const1s'', Visitor_for_struct Dwarf_int8),
        (''DW_OP_const2u'', Visitor_for_struct Dwarf_uint16),
        (''DW_OP_const2s'', Visitor_for_struct Dwarf_int16),
        (''DW_OP_const4u'', Visitor_for_struct Dwarf_uint32),
        (''DW_OP_const4s'', Visitor_for_struct Dwarf_int32),
        (''DW_OP_const8u'', Visitor_for_struct Dwarf_uint64),
        (''DW_OP_const8s'', Visitor_for_struct Dwarf_int64),
        (''DW_OP_constu'', Visitor_for_struct Dwarf_uleb128),
        (''DW_OP_consts'', Visitor_for_struct Dwarf_sleb128),
        (''DW_OP_plus_uconst'', Visitor_for_struct Dwarf_uleb128),
        (''DW_OP_pick'', Visitor_for_struct Dwarf_uint8),
        (''DW_OP_bra'', Visitor_for_struct Dwarf_int16),
        (''DW_OP_skip'', Visitor_for_struct Dwarf_int16)] \<Longrightarrow> n \<in> fst ` set DW_OP_static"
  by (auto simp: DW_OP_static_def)

lemma entries_defined: "\<forall>(n, r) \<in> set dispatch_entries. \<exists>c. map_of DW_OP_name2opcode n = Some c"
proof (clarify)
  fix n r
  assume "(n, r) \<in> set dispatch_entries"
  then show "\<exists>c. map_of DW_OP_name2opcode n = Some c"
    unfolding dispatch_entries_iff
    by (elim disjE conjE exE)
       (blast intro: static_defined no_args_in_static struct_in_static family_defined)+
qed

lemma dispatch_get_sound:
  assumes "dispatch_get c = Inr (Some r)"
  shows "\<exists>n. (n, r) \<in> set dispatch_entries \<and> map_of DW_OP_name2opcode n = Some c"
  using add_each_result [OF entries_defined, of "[]"] assms
  by (auto simp: dispatch_get_def init_dispatch_table_def)

lemma dispatch_get_complete:
  assumes "(n, r) \<in> set dispatch_entries" "map_of DW_OP_name2opcode n = Some c"
  shows "\<exists>r'. dispatch_get c = Inr (Some r')"
proof -
  from add_each_result [OF entries_defined, of "[]"] obtain t where
    t: "add_each dispatch_entries [] = Inr t"
    and cmp: "\<And>c. (\<exists>n r. (n, r) \<in> set dispatch_entries \<and> map_of DW_OP_name2opcode n = Some c)
           \<Longrightarrow> map_of t c \<noteq> None"
    by auto
  from cmp [of c] assms have "map_of t c \<noteq> None" by blast
  with t show ?thesis by (auto simp: dispatch_get_def init_dispatch_table_def)
qed

lemma dispatch_get_total: "\<exists>x. dispatch_get c = Inr x"
  using add_each_result [OF entries_defined, of "[]"]
  by (auto simp: dispatch_get_def init_dispatch_table_def)

lemma dispatch_get_by_name:
  assumes "map_of DW_OP_name2opcode n = Some c" "(n, r) \<in> set dispatch_entries"
    and "\<And>r'. (n, r') \<in> set dispatch_entries \<Longrightarrow> r' = r"
  shows "dispatch_get c = Inr (Some r)"
proof -
  from dispatch_get_complete [OF assms(2,1)] obtain r' where r': "dispatch_get c = Inr (Some r')"
    by blast
  from dispatch_get_sound [OF r'] obtain n' where
    "(n', r') \<in> set dispatch_entries" "map_of DW_OP_name2opcode n' = Some c" by blast
  with assms(1) have "(n, r') \<in> set dispatch_entries" by (auto dest: name2opcode_inj)
  with assms(3) r' show ?thesis by simp
qed

lemma dispatch_get_absent:
  assumes "map_of DW_OP_name2opcode n = Some c" "\<And>r. (n, r) \<notin> set dispatch_entries"
  shows "dispatch_get c = Inr None"
proof -
  obtain x where x: "dispatch_get c = Inr x" using dispatch_get_total by blast
  show ?thesis
  proof (cases x)
    case None
    with x show ?thesis by simp
  next
    case (Some r)
    with x dispatch_get_sound [of c r] obtain n' where
      "(n', r) \<in> set dispatch_entries" "map_of DW_OP_name2opcode n' = Some c" by blast
    with assms(1) have "(n, r) \<in> set dispatch_entries" by (auto dest: name2opcode_inj)
    with assms(2) show ?thesis by simp
  qed
qed

lemma static_name2opcode:
  "map_of DW_OP_name2opcode ''DW_OP_constu'' = Some 0x10"
  "map_of DW_OP_name2opcode ''DW_OP_consts'' = Some 0x11"
  "map_of DW_OP_name2opcode ''DW_OP_plus_uconst'' = Some 0x23"
  "map_of DW_OP_name2opcode ''DW_OP_regx'' = Some 0x90"
  "map_of DW_OP_name2opcode ''DW_OP_fbreg'' = Some 0x91"
  "map_of DW_OP_name2opcode ''DW_OP_bregx'' = Some 0x92"
  "map_of DW_OP_name2opcode ''DW_OP_piece'' = Some 0x93"
  "map_of DW_OP_name2opcode ''DW_OP_dup'' = Some 0x12"
  "map_of DW_OP_name2opcode ''DW_OP_const1u'' = Some 0x08"
  "map_of DW_OP_name2opcode ''DW_OP_nop'' = Some 0x96"
  by (rule static_lookup, simp add: DW_OP_static_def)+

lemma dispatch_get_constu: "dispatch_get 0x10 = Inr (Some (Visitor_for_struct Dwarf_uleb128))"
  by (rule dispatch_get_by_name [OF static_name2opcode(1)]) (simp_all add: dispatch_entries_iff)

lemma dispatch_get_consts: "dispatch_get 0x11 = Inr (Some (Visitor_for_struct Dwarf_sleb128))"
  by (rule dispatch_get_by_name [OF static_name2opcode(2)]) (simp_all add: dispatch_entries_iff)

lemma dispatch_get_plus_uconst: "dispatch_get 0x23 = Inr (Some (Visitor_for_struct Dwarf_uleb128))"
  by (rule dispatch_get_by_name [OF static_name2opcode(3)]) (simp_all add: dispatch_entries_iff)

lemma dispatch_get_breg:
  assumes "0 \<le> i" "i \<le> 31"
  shows "dispatch_get (0x70 + i) = Inr (Some (Visitor_for_struct Dwarf_sleb128))"
proof (rule dispatch_get_by_name [OF name2opcode_breg [OF assms]])
  show "(''DW_OP_breg'' @ str i, Visitor_for_struct Dwarf_sleb128) \<in> set dispatch_entries"
    unfolding dispatch_entries_iff using assms by blast
  show "r' = Visitor_for_struct Dwarf_sleb128"
    if "(''DW_OP_breg'' @ str i, r') \<in> set dispatch_entries" for r'
    using that unfolding dispatch_entries_iff by auto
qed

lemma dispatch_get_regx: "dispatch_get 0x90 = Inr None"
  using str_not_x str_not_x [symmetric]
  by (intro dispatch_get_absent [OF static_name2opcode(4)]) (simp add: dispatch_entries_iff)

lemma dispatch_get_fbreg: "dispatch_get 0x91 = Inr None"
  by (rule dispatch_get_absent [OF static_name2opcode(5)]) (simp add: dispatch_entries_iff)

lemma dispatch_get_bregx: "dispatch_get 0x92 = Inr None"
  using str_not_x str_not_x [symmetric]
  by (intro dispatch_get_absent [OF static_name2opcode(6)]) (simp add: dispatch_entries_iff)

lemma dispatch_get_piece: "dispatch_get 0x93 = Inr None"
  by (rule dispatch_get_absent [OF static_name2opcode(7)]) (simp add: dispatch_entries_iff)

lemma dispatch_get_dup: "dispatch_get 0x12 = Inr (Some OP_with_no_args)"
  by (rule dispatch_get_by_name [OF static_name2opcode(8)]) (simp_all add: dispatch_entries_iff)

lemma dispatch_get_const1u: "dispatch_get 0x08 = Inr (Some (Visitor_for_struct Dwarf_uint8))"
  by (rule dispatch_get_by_name [OF static_name2opcode(9)]) (simp_all add: dispatch_entries_iff)

lemma dispatch_get_nop: "dispatch_get 0x96 = Inr None"
  by (rule dispatch_get_absent [OF static_name2opcode(10)]) (simp add: dispatch_entries_iff)

subsection \<open>The decode loop\<close>

lemma read1_Some:
  "pos s < length (data s) \<Longrightarrow> read1 s = (Some (data s ! pos s), s\<lparr>pos := pos s + 1\<rparr>)"
  by (simp add: read1_def)

lemma read1_None: "\<not> pos s < length (data s) \<Longrightarrow> read1 s = (None, s)"
  by (simp add: read1_def)

lemma decode_step_exhausted:
  "stream v = Some s \<Longrightarrow> \<not> pos s < length (data s) \<Longrightarrow> decode_step d h v = Exhausted"
  by (simp add: decode_step_def read1_None)

lemma decode_step_no_stream:
  "stream v = None \<Longrightarrow> decode_step d h v = Raise AttributeError v []"
  by (simp add: decode_step_def)

lemma decode_step_unknown:
  "stream v = Some s \<Longrightarrow> pos s < length (data s) \<Longrightarrow>
   map_of DW_OP_opcode2name (uint (data s ! pos s)) = None \<Longrightarrow>
   decode_step d h v =
     Raise KeyError (v\<lparr>stream := Some (s\<lparr>pos := pos s + 1\<rparr>),
                      cur_opcode := Some (uint (data s ! pos s))\<rparr>) []"
  by (simp add: decode_step_def read1_Some Let_def)

lemma decode_step_known:
  assumes "stream v = Some s" "pos s < length (data s)"
    and "map_of DW_OP_opcode2name (uint (data s ! pos s)) = Some opcode_name"
  shows "decode_step d h v =
     (let opcode = uint (data s ! pos s);
          v2 = v\<lparr>stream := Some (s\<lparr>pos := pos s + 1\<rparr>), cur_opcode := Some opcode,
                 cur_opcode_name := Some opcode_name\<rparr>
      in case visitor_for d h opcode opcode opcode_name v2 of
           Inl (e, v2') \<Rightarrow> Raise e v2' []
         | Inr v3 \<Rightarrow>
             (case after_visit h v3 of
                Inl (e, v3') \<Rightarrow> Raise e v3' [call_of v3]
              | Inr v4 \<Rightarrow> Decoded v4 (call_of v3)))"
  using assms by (simp add: decode_step_def read1_Some Let_def)

lemma struct_parse_forward:
  "struct_parse c s = Inr (x, s') \<Longrightarrow> data s' = data s \<and> pos s \<le> pos s'"
  by (auto simp: struct_parse_def split: sum.splits if_splits)

lemma visit_forward:
  "visit d r opcode opcode_name v = Inr v' \<Longrightarrow> remaining v' \<le> remaining v"
  by (cases r)
     (auto simp: remaining_def split: option.splits sum.splits prod.splits dest!: struct_parse_forward)

lemma decode_step_decreases:
  assumes dv: "\<And>opcode opcode_name v v'.
        default_visitor h opcode opcode_name v = Inr v' \<Longrightarrow> remaining v' \<le> remaining v"
    and av: "\<And>v v'. after_visit h v = Inr v' \<Longrightarrow> remaining v' \<le> remaining v"
    and step: "decode_step d h v = Decoded v' call"
  shows "remaining v' < remaining v"
proof -
  from step obtain s where s: "stream v = Some s"
    by (cases "stream v") (auto simp: decode_step_def)
  from step s have lt: "pos s < length (data s)"
    by (auto simp: decode_step_def read1_def split: if_splits)
  from step s lt obtain opcode_name where
    nm: "map_of DW_OP_opcode2name (uint (data s ! pos s)) = Some opcode_name"
    by (cases "map_of DW_OP_opcode2name (uint (data s ! pos s))")
       (auto simp: decode_step_unknown)
  define opcode where "opcode = uint (data s ! pos s)"
  define v2 where "v2 = v\<lparr>stream := Some (s\<lparr>pos := pos s + 1\<rparr>), cur_opcode := Some opcode,
                 cur_opcode_name := Some opcode_name\<rparr>"
  from step obtain v3 where
    v3: "visitor_for d h opcode opcode opcode_name v2 = Inr v3" and v4: "after_visit h v3 = Inr v'"
    unfolding decode_step_known [OF s lt nm] Let_def opcode_def [symmetric] v2_def [symmetric]
    by (auto split: sum.splits)
  have "remaining v2 < remaining v"
    using s lt by (simp add: v2_def remaining_def)
  moreover have "remaining v3 \<le> remaining v2"
    using v3 by (auto simp: visitor_for_def split: option.splits dest: dv visit_forward)
  moreover have "remaining v' \<le> remaining v3"
    using v4 by (rule av)
  ultimately show ?thesis by simp
qed

lemma process_loop_Exhausted:
  "decode_step d h v = Exhausted \<Longrightarrow> process_loop d h v calls = Some (Returned, v, calls)"
  by (subst process_loop.simps) simp

lemma process_loop_Raise:
  "decode_step d h v = Raise e v' made \<Longrightarrow>
   process_loop d h v calls = Some (Raised e, v', calls @ made)"
  by (subst process_loop.simps) simp

lemma process_loop_Decoded:
  "decode_step d h v = Decoded v' call \<Longrightarrow>
   process_loop d h v calls = process_loop d h v' (calls @ [call])"
  by (subst process_loop.simps) simp

subsection \<open>Claims about the tables\<close>

lemma str_15: "str 15 = ''15''"
  by (simp add: str_def str_nat.simps digit_char_def)

lemma str_31: "str 31 = ''31''"
  by (simp add: str_def str_nat.simps digit_char_def)

lemma str_0: "str 0 = ''0''"
  by (simp add: str_def str_nat.simps digit_char_def)

lemma str_1: "str 1 = ''1''"
  by (simp add: str_def str_nat.simps digit_char_def)

lemma opcode2name_undefined_0: "map_of DW_OP_opcode2name 0 = None"
proof (cases "map_of DW_OP_opcode2name 0")
  case None
  then show ?thesis .
next
  case (Some k)
  then have "map_of DW_OP_name2opcode k = Some 0" by (simp add: opcode2name_iff)
  from name2opcode_cases [OF this] have "map_of DW_OP_static k = Some 0" by auto
  then have "(k, 0) \<in> set DW_OP_static" by (rule map_of_SomeD)
  then have "0 \<in> snd ` set DW_OP_static" by force
  then show ?thesis by (simp add: DW_OP_static_def)
qed

lemma init_result:
  "\<exists>t. init sts u =
        Inr (\<lparr>structs = sts, dispatch_table = t\<rparr>,
             \<lparr>stream = None, cur_opcode = None, cur_opcode_name = None,
              cur_args = [], consumer = u\<rparr>)
      \<and> (\<forall>c. dispatch_get c = Inr (map_of t c))"
proof -
  from dispatch_get_total [of 0] obtain t where t: "init_dispatch_table = Inr t"
    by (auto simp: dispatch_get_def split: sum.splits)
  show ?thesis
    unfolding init_def dispatch_get_def t by simp
qed

lemma invert_any_listing:
  assumes eq: "set items = set DW_OP_name2opcode"
  shows "map_of (invert_items items) c = Some k \<longleftrightarrow> map_of DW_OP_name2opcode k = Some c"
proof -
  have fn: "k = k'" if "(k, c) \<in> set items" "(k', c) \<in> set items" for k k' c
  proof -
    from that have "map_of DW_OP_name2opcode k = Some c" "map_of DW_OP_name2opcode k' = Some c"
      by (simp_all only: eq name2opcode_iff)
    then show ?thesis by (rule name2opcode_inj)
  qed
  have "map_of (invert_items items) c = Some k \<longleftrightarrow> (k, c) \<in> set items"
    by (rule invert_items_iff) (rule fn)
  then show ?thesis by (simp only: eq name2opcode_iff)
qed

lemma option_eqI:
  assumes "\<And>k. a = Some k \<longleftrightarrow> b = Some k"
  shows "a = b"
proof (cases a)
  case None
  show ?thesis
  proof (cases b)
    case None
    with \<open>a = None\<close> show ?thesis by simp
  next
    case (Some k)
    with assms [of k] show ?thesis by simp
  qed
next
  case (Some k)
  with assms [of k] show ?thesis by simp
qed

text \<open>
  Claim C2. The opcode table is a bijection: every name of \<open>DW_OP_name2opcode\<close> is mapped
  by \<open>DW_OP_opcode2name\<close> back from its code, every code of \<open>DW_OP_opcode2name\<close> is
  mapped by \<open>DW_OP_name2opcode\<close> back from its name, no two names share a code and no two
  codes share a name. The generated families are part of the table the statement ranges
  over. The inverse table is the same map in whatever order the pairs are enumerated.
\<close>

theorem opcode_table_bijection:
  "(\<forall>name code. map_of DW_OP_name2opcode name = Some code \<longrightarrow>
        map_of DW_OP_opcode2name code = Some name)
   \<and> (\<forall>code name. map_of DW_OP_opcode2name code = Some name \<longrightarrow>
        map_of DW_OP_name2opcode name = Some code)
   \<and> (\<forall>name name' code. map_of DW_OP_name2opcode name = Some code \<longrightarrow>
        map_of DW_OP_name2opcode name' = Some code \<longrightarrow> name = name')
   \<and> (\<forall>code code' name. map_of DW_OP_opcode2name code = Some name \<longrightarrow>
        map_of DW_OP_opcode2name code' = Some name \<longrightarrow> code = code')
   \<and> (\<forall>items. set items = set DW_OP_name2opcode \<longrightarrow>
        map_of (invert_items items) = map_of DW_OP_opcode2name)"
proof (intro conjI allI impI)
  fix name code
  assume "map_of DW_OP_name2opcode name = Some code"
  then show "map_of DW_OP_opcode2name code = Some name" by (simp only: opcode2name_iff)
next
  fix name code
  assume "map_of DW_OP_opcode2name code = Some name"
  then show "map_of DW_OP_name2opcode name = Some code" by (simp only: opcode2name_iff)
next
  fix name name' code
  assume "map_of DW_OP_name2opcode name = Some code" "map_of DW_OP_name2opcode name' = Some code"
  then show "name = name'" by (rule name2opcode_inj)
next
  fix code code' name
  assume "map_of DW_OP_opcode2name code = Some name" "map_of DW_OP_opcode2name code' = Some name"
  then have "map_of DW_OP_name2opcode name = Some code" "map_of DW_OP_name2opcode name = Some code'"
    by (simp_all only: opcode2name_iff)
  then show "code = code'" by simp
next
  fix items :: "(string, int) dict"
  assume eq: "set items = set DW_OP_name2opcode"
  show "map_of (invert_items items) = map_of DW_OP_opcode2name"
  proof
    fix c
    show "map_of (invert_items items) c = map_of DW_OP_opcode2name c"
      by (rule option_eqI) (simp only: invert_any_listing [OF eq] opcode2name_iff)
  qed
qed

theorem opcode_table_bijection_witness:
  "map_of DW_OP_name2opcode ''DW_OP_breg15'' = Some 0x7f
   \<and> map_of DW_OP_opcode2name 0x7f = Some ''DW_OP_breg15''
   \<and> map_of (invert_items (rev DW_OP_name2opcode)) = map_of DW_OP_opcode2name"
proof -
  have n: "map_of DW_OP_name2opcode ''DW_OP_breg15'' = Some 0x7f"
    using name2opcode_breg [of 15] by (simp add: str_15)
  have "map_of DW_OP_opcode2name 0x7f = Some ''DW_OP_breg15''"
    by (rule opcode_table_bijection [THEN conjunct1, rule_format, OF n])
  moreover have "map_of (invert_items (rev DW_OP_name2opcode)) = map_of DW_OP_opcode2name"
    by (rule opcode_table_bijection [THEN conjunct2, THEN conjunct2, THEN conjunct2,
          THEN conjunct2, rule_format]) (rule set_rev)
  ultimately show ?thesis using n by (simp only: simp_thms)
qed

text \<open>
  Claim C6. For each of the three generated families and every index \<open>i\<close> from 0 to 31,
  \<open>DW_OP_name2opcode[prefix + str(i)]\<close> is the base of the family plus \<open>i\<close>: base 0x30 for
  \<open>DW_OP_lit\<close>, 0x50 for \<open>DW_OP_reg\<close>, 0x70 for \<open>DW_OP_breg\<close>.
\<close>

theorem generated_families:
  "\<forall>i \<in> {0..31}.
     map_of DW_OP_name2opcode (''DW_OP_lit'' @ str i) = Some (0x30 + i)
   \<and> map_of DW_OP_name2opcode (''DW_OP_reg'' @ str i) = Some (0x50 + i)
   \<and> map_of DW_OP_name2opcode (''DW_OP_breg'' @ str i) = Some (0x70 + i)"
  by (intro ballI conjI name2opcode_lit name2opcode_reg name2opcode_breg) simp_all

theorem generated_families_witness:
  "map_of DW_OP_name2opcode ''DW_OP_lit31'' = Some 0x4f
   \<and> map_of DW_OP_name2opcode ''DW_OP_reg31'' = Some 0x6f
   \<and> map_of DW_OP_name2opcode ''DW_OP_breg31'' = Some 0x8f"
  using generated_families [rule_format, of 31] by (simp add: str_31)

text \<open>
  Claim C4 says that expanding a family over a map that already has one of the generated
  names signals an error. \<open>_generate_dynamic_values\<close> has no such check: on a map that
  holds \<open>DW_OP_lit0\<close> with code 5 it returns the map with the code replaced by 0x30.
\<close>

theorem generate_dynamic_values_counterexample:
  "generate_dynamic_values [(''DW_OP_lit0'', 5)] ''DW_OP_lit'' 0 0 0x30 = [(''DW_OP_lit0'', 0x30)]"
  by (simp add: generate_dynamic_values_def upto.simps str_0)

text \<open>
  Claim C4, as the code has it. For every map and all family parameters,
  \<open>_generate_dynamic_values\<close> returns a map in which every name \<open>prefix + str(i)\<close>, for
  \<open>i\<close> from the first to the last index, has the code \<open>value_start + i - index_start\<close>,
  whether or not the name was present before, and every other name keeps what it had.
\<close>

theorem generate_dynamic_values_assigns:
  "(\<forall>i. index_start \<le> i \<and> i \<le> index_end \<longrightarrow>
      map_of (generate_dynamic_values m prefix index_start index_end value_start) (prefix @ str i)
        = Some (value_start + i - index_start))
   \<and> (\<forall>k. (\<forall>i. index_start \<le> i \<and> i \<le> index_end \<longrightarrow> k \<noteq> prefix @ str i) \<longrightarrow>
      map_of (generate_dynamic_values m prefix index_start index_end value_start) k = map_of m k)"
proof (intro conjI allI impI)
  fix i
  assume "index_start \<le> i \<and> i \<le> index_end"
  then show "map_of (generate_dynamic_values m prefix index_start index_end value_start)
      (prefix @ str i) = Some (value_start + i - index_start)"
    by (simp only: generate_hit)
next
  fix k
  assume "\<forall>i. index_start \<le> i \<and> i \<le> index_end \<longrightarrow> k \<noteq> prefix @ str i"
  then show "map_of (generate_dynamic_values m prefix index_start index_end value_start) k = map_of m k"
    by (intro generate_other) blast
qed

theorem generate_dynamic_values_assigns_witness:
  "map_of (generate_dynamic_values [(''DW_OP_lit1'', 5), (''DW_OP_addr'', 3)] ''DW_OP_lit'' 0 1 0x30)
      ''DW_OP_lit1'' = Some 0x31
   \<and> map_of (generate_dynamic_values [(''DW_OP_lit1'', 5), (''DW_OP_addr'', 3)] ''DW_OP_lit'' 0 1 0x30)
      ''DW_OP_addr'' = Some 3"
proof -
  have apart: "''DW_OP_addr'' \<noteq> ''DW_OP_lit'' @ str i" for i by simp
  show ?thesis
    using generate_dynamic_values_assigns
      [where index_start = 0 and index_end = 1 and prefix = "''DW_OP_lit''" and value_start = 48
         and m = "[(''DW_OP_lit1'', 5), (''DW_OP_addr'', 3)]"]
      apart
    by (auto simp: str_1 dest!: spec [of _ 1])
qed

subsection \<open>Claims about the dispatch table\<close>

lemma visit_struct_result:
  assumes "visit d (Visitor_for_struct st) opcode opcode_name v = Inr v'"
  shows "\<exists>s x s'. stream v = Some s \<and> struct_parse (structs d st) s = Inr (x, s')
           \<and> v' = v\<lparr>stream := Some s', cur_args := [x]\<rparr>"
  using assms by (auto split: option.splits sum.splits)

text \<open>
  Claim C3 says that every opcode with a base-128 operand, \<open>DW_OP_regx\<close> among them, has
  an entry of its own in the dispatch table. \<open>DW_OP_regx\<close> is opcode 0x90 and a newly
  constructed visitor has no entry for 0x90, so it is handed to the default visitor.
\<close>

theorem dispatch_regx_counterexample:
  "map_of DW_OP_name2opcode ''DW_OP_regx'' = Some 0x90 \<and> dispatch_get 0x90 = Inr None"
  by (simp only: static_name2opcode dispatch_get_regx simp_thms)

text \<open>
  Claim C3, as the code has it. \<open>DW_OP_constu\<close> and \<open>DW_OP_plus_uconst\<close> have the entry made
  for the unsigned base-128 struct, \<open>DW_OP_consts\<close> and \<open>DW_OP_breg0\<close> to \<open>DW_OP_breg31\<close> the
  entry made for the signed one; such an entry, when it returns, has parsed the struct at
  the stream's position and left exactly the one parsed value in \<open>_cur_args\<close>.
  \<open>DW_OP_regx\<close>, \<open>DW_OP_fbreg\<close>, \<open>DW_OP_bregx\<close> and \<open>DW_OP_piece\<close> have no entry.
\<close>

theorem dispatch_base128:
  "map_of DW_OP_name2opcode ''DW_OP_constu'' = Some 0x10
   \<and> dispatch_get 0x10 = Inr (Some (Visitor_for_struct Dwarf_uleb128))
   \<and> map_of DW_OP_name2opcode ''DW_OP_consts'' = Some 0x11
   \<and> dispatch_get 0x11 = Inr (Some (Visitor_for_struct Dwarf_sleb128))
   \<and> map_of DW_OP_name2opcode ''DW_OP_plus_uconst'' = Some 0x23
   \<and> dispatch_get 0x23 = Inr (Some (Visitor_for_struct Dwarf_uleb128))
   \<and> (\<forall>i \<in> {0..31}.
         map_of DW_OP_name2opcode (''DW_OP_breg'' @ str i) = Some (0x70 + i)
       \<and> dispatch_get (0x70 + i) = Inr (Some (Visitor_for_struct Dwarf_sleb128)))
   \<and> (\<forall>d st opcode opcode_name (v :: 'u visitor) v'.
         visit d (Visitor_for_struct st) opcode opcode_name v = Inr v' \<longrightarrow>
         (\<exists>s x s'. stream v = Some s \<and> struct_parse (structs d st) s = Inr (x, s')
            \<and> v' = v\<lparr>stream := Some s', cur_args := [x]\<rparr>))
   \<and> map_of DW_OP_name2opcode ''DW_OP_regx'' = Some 0x90 \<and> dispatch_get 0x90 = Inr None
   \<and> map_of DW_OP_name2opcode ''DW_OP_fbreg'' = Some 0x91 \<and> dispatch_get 0x91 = Inr None
   \<and> map_of DW_OP_name2opcode ''DW_OP_bregx'' = Some 0x92 \<and> dispatch_get 0x92 = Inr None
   \<and> map_of DW_OP_name2opcode ''DW_OP_piece'' = Some 0x93 \<and> dispatch_get 0x93 = Inr None"
proof -
  have breg: "\<forall>i \<in> {0..31}.
         map_of DW_OP_name2opcode (''DW_OP_breg'' @ str i) = Some (0x70 + i)
       \<and> dispatch_get (0x70 + i) = Inr (Some (Visitor_for_struct Dwarf_sleb128))"
    by (intro ballI conjI name2opcode_breg dispatch_get_breg) simp_all
  have vis: "\<forall>d st opcode opcode_name (v :: 'u visitor) v'.
         visit d (Visitor_for_struct st) opcode opcode_name v = Inr v' \<longrightarrow>
         (\<exists>s x s'. stream v = Some s \<and> struct_parse (structs d st) s = Inr (x, s')
            \<and> v' = v\<lparr>stream := Some s', cur_args := [x]\<rparr>)"
    by (intro allI impI) (rule visit_struct_result)
  show ?thesis
    by (intro conjI breg vis static_name2opcode dispatch_get_constu dispatch_get_consts
        dispatch_get_plus_uconst dispatch_get_regx dispatch_get_fbreg dispatch_get_bregx
        dispatch_get_piece)
qed

theorem dispatch_base128_witness:
  "map_of DW_OP_name2opcode ''DW_OP_breg31'' = Some 0x8f
   \<and> dispatch_get 0x8f = Inr (Some (Visitor_for_struct Dwarf_sleb128))
   \<and> visit \<lparr>structs = (\<lambda>st. one_byte), dispatch_table = []\<rparr>
        (Visitor_for_struct Dwarf_sleb128) 0x8f ''DW_OP_breg31''
        \<lparr>stream = Some \<lparr>data = [0x8f, 0x05], pos = 1\<rparr>, cur_opcode = Some 0x8f,
         cur_opcode_name = Some ''DW_OP_breg31'', cur_args = [], consumer = ()\<rparr>
      = Inr \<lparr>stream = Some \<lparr>data = [0x8f, 0x05], pos = 2\<rparr>, cur_opcode = Some 0x8f,
         cur_opcode_name = Some ''DW_OP_breg31'', cur_args = [5], consumer = ()\<rparr>"
proof -
  have "(31::int) \<in> {0..31}" by simp
  from dispatch_base128 [THEN conjunct2, THEN conjunct2, THEN conjunct2, THEN conjunct2,
      THEN conjunct2, THEN conjunct2, THEN conjunct1, rule_format, OF this]
  have "map_of DW_OP_name2opcode ''DW_OP_breg31'' = Some 0x8f
     \<and> dispatch_get 0x8f = Inr (Some (Visitor_for_struct Dwarf_sleb128))"
    by (simp add: str_31)
  then show ?thesis by (simp add: struct_parse_def rest_def one_byte_def)
qed

subsection \<open>Byte lists, and a visitor as constructed\<close>

lemma chr_uint: "chr (uint c) = Inr c"
proof -
  have "uint c < 256" using uint_bounded [of c] by simp
  then show ?thesis by (simp add: chr_def)
qed

lemma uint_chr: "chr i = Inr c \<Longrightarrow> uint c = i"
  by (auto simp: chr_def uint_word_of_int take_bit_int_eq_self split: if_splits)

lemma bytelist2string_of_bytes: "bytelist2string (map uint string) = Inr string"
  by (induction string) (simp_all add: chr_uint)

lemma bytelist2string_ord:
  "bytelist2string bytelist = Inr string \<Longrightarrow> map uint string = bytelist"
  by (induction bytelist arbitrary: string) (auto split: sum.splits dest: uint_chr)

lemma bytelist2string_ValueError:
  "bytelist2string bytelist = Inl e \<Longrightarrow> e = ValueError \<and> (\<exists>b \<in> set bytelist. \<not> (0 \<le> b \<and> b < 256))"
  by (induction bytelist) (auto simp: chr_def split: sum.splits if_splits)

lemma process_expr_bytes:
  "process_expr d h v (Byte_list (map uint string)) =
   process_loop d h (v\<lparr>stream := Some \<lparr>data = string, pos = 0\<rparr>\<rparr>) []"
  by (simp add: process_expr_def bytelist2string_of_bytes StringIO_def)

lemma bytes_examples:
  "map uint [0x12 :: byte] = [0x12]"
  "map uint [0x00, 0x12 :: byte] = [0x00, 0x12]"
  "map uint [0x12, 0x12 :: byte] = [0x12, 0x12]"
  "map uint [0x08, 0x2a, 0x96 :: byte] = [0x08, 0x2a, 0x96]"
  "map uint [0x12, 0x08, 0x2a, 0x96 :: byte] = [0x12, 0x08, 0x2a, 0x96]"
  by simp_all

lemma init_example: "init (\<lambda>st. one_byte) () = Inr (example_decoder, new_visitor)"
proof -
  from dispatch_get_total [of 0] obtain t where t: "init_dispatch_table = Inr t"
    by (auto simp: dispatch_get_def split: sum.splits)
  show ?thesis
    unfolding init_def example_decoder_def new_visitor_def t by simp
qed

lemma example_table: "map_of (dispatch_table example_decoder) c = r \<longleftrightarrow> dispatch_get c = Inr r"
proof -
  from dispatch_get_total [of 0] obtain t where t: "init_dispatch_table = Inr t"
    by (auto simp: dispatch_get_def split: sum.splits)
  show ?thesis
    unfolding example_decoder_def dispatch_get_def t by simp
qed

lemma example_table_lookups:
  "map_of (dispatch_table example_decoder) 0x12 = Some OP_with_no_args"
  "map_of (dispatch_table example_decoder) 0x08 = Some (Visitor_for_struct Dwarf_uint8)"
  "map_of (dispatch_table example_decoder) 0x96 = None"
  by (simp_all only: example_table dispatch_get_dup dispatch_get_const1u dispatch_get_nop)

lemma example_structs: "structs example_decoder st = one_byte"
  by (simp add: example_decoder_def)

lemma opcode2name_examples:
  "map_of DW_OP_opcode2name 0x12 = Some ''DW_OP_dup''"
  "map_of DW_OP_opcode2name 0x08 = Some ''DW_OP_const1u''"
  "map_of DW_OP_opcode2name 0x96 = Some ''DW_OP_nop''"
  by (simp_all only: opcode2name_iff static_name2opcode)

lemma base_default_visitor:
  "default_visitor GenericLocationExprVisitor opcode opcode_name v = Inl (NotImplementedError, v)"
  by (simp add: GenericLocationExprVisitor_def)

lemma base_after_visit: "after_visit GenericLocationExprVisitor v = Inl (NotImplementedError, v)"
  by (simp add: GenericLocationExprVisitor_def)

subsection \<open>Leaving the loop\<close>

lemma decode_step_Exhausted_remaining: "decode_step d h v = Exhausted \<Longrightarrow> remaining v = 0"
  by (auto simp: decode_step_def read1_def remaining_def Let_def
      split: option.splits if_splits sum.splits prod.splits)

lemma process_loop_returns:
  assumes dv: "\<And>opcode opcode_name v v'.
        default_visitor h opcode opcode_name v = Inr v' \<Longrightarrow> remaining v' \<le> remaining v"
    and av: "\<And>v v'. after_visit h v = Inr v' \<Longrightarrow> remaining v' \<le> remaining v"
  shows "\<exists>out v' calls'. process_loop d h v calls = Some (out, v', calls')
           \<and> (out = Returned \<longrightarrow> remaining v' = 0)"
proof (induction "remaining v" arbitrary: v calls rule: less_induct)
  case less
  show ?case
  proof (cases "decode_step d h v")
    case Exhausted
    then show ?thesis
      by (simp add: process_loop_Exhausted decode_step_Exhausted_remaining)
  next
    case (Raise e v' made)
    then show ?thesis by (simp add: process_loop_Raise)
  next
    case (Decoded v' call)
    from decode_step_decreases [OF dv av Decoded] have "remaining v' < remaining v" .
    from less [OF this, of "calls @ [call]"] Decoded show ?thesis
      by (simp only: process_loop_Decoded)
  qed
qed

lemma rewinding_step:
  assumes "stream v = Some \<lparr>data = [0x12], pos = 0\<rparr>"
  shows "\<exists>v' call. decode_step example_decoder rewinding v = Decoded v' call
           \<and> stream v' = Some \<lparr>data = [0x12], pos = 0\<rparr>"
  unfolding decode_step_known [of v "\<lparr>data = [0x12], pos = 0\<rparr>" "''DW_OP_dup''", OF assms,
      simplified, OF opcode2name_examples(1)]
  by (simp add: visitor_for_def example_table_lookups rewinding_def call_of_def)

lemma rewinding_never_returns:
  assumes "process_loop d h v calls = Some r"
  shows "\<not> (d = example_decoder \<and> h = rewinding \<and> stream v = Some \<lparr>data = [0x12], pos = 0\<rparr>)"
proof (rule process_loop.raw_induct
    [where P = "\<lambda>d h v calls r. \<not> (d = example_decoder \<and> h = rewinding
        \<and> stream v = Some \<lparr>data = [0x12], pos = 0\<rparr>)", OF _ assms])
  fix loop d h calls r and v :: "'a visitor"
  assume IH: "\<And>d h (v :: 'a visitor) calls r. loop d h v calls = Some r \<Longrightarrow>
      \<not> (d = example_decoder \<and> h = rewinding \<and> stream v = Some \<lparr>data = [0x12], pos = 0\<rparr>)"
    and eq: "(case decode_step d h v of
        Exhausted \<Rightarrow> Some (Returned, v, calls)
      | Raise e v' made \<Rightarrow> Some (Raised e, v', calls @ made)
      | Decoded v' call \<Rightarrow> loop d h v' (calls @ [call])) = Some r"
  show "\<not> (d = example_decoder \<and> h = rewinding \<and> stream v = Some \<lparr>data = [0x12], pos = 0\<rparr>)"
  proof
    assume "d = example_decoder \<and> h = rewinding \<and> stream v = Some \<lparr>data = [0x12], pos = 0\<rparr>"
    then have d: "d = example_decoder" and h: "h = rewinding"
      and s: "stream v = Some \<lparr>data = [0x12], pos = 0\<rparr>" by simp_all
    from rewinding_step [OF s] obtain v' call where
      step: "decode_step example_decoder rewinding v = Decoded v' call"
      and s': "stream v' = Some \<lparr>data = [0x12], pos = 0\<rparr>" by blast
    from eq step have "loop d h v' (calls @ [call]) = Some r" by (simp add: d h)
    then have "\<not> (d = example_decoder \<and> h = rewinding
        \<and> stream v' = Some \<lparr>data = [0x12], pos = 0\<rparr>)"
      by (rule IH)
    with d h s' show False by simp
  qed
qed

subsection \<open>Decoding a sequence of instructions\<close>

lemma encode_Cons: "encode ((b, operands) # ins) = b # operands @ encode ins"
  by (simp add: encode_def)

lemma encode_Nil: "encode [] = []"
  by (simp add: encode_def)

lemma length_encode: "length (encode ins) = (\<Sum>(b, operands) \<leftarrow> ins. 1 + length operands)"
  by (induction ins) (auto simp: encode_Nil encode_Cons)

lemma visitor_for_instruction:
  assumes dv: "\<And>opcode opcode_name (v :: 'u visitor) s n.
        stream v = Some s \<Longrightarrow> map_of (dispatch_table d) opcode = None \<Longrightarrow>
        dflt opcode (rest s) = Some n \<Longrightarrow> n \<le> length (rest s) \<Longrightarrow>
        \<exists>v'. default_visitor h opcode opcode_name v = Inr v'
            \<and> stream v' = Some (s\<lparr>pos := pos s + n\<rparr>)
            \<and> cur_opcode v' = cur_opcode v \<and> cur_opcode_name v' = cur_opcode_name v"
    and ob: "operand_bytes d dflt opcode (rest s) = Some n"
    and n: "n \<le> length (rest s)"
    and s: "stream (v :: 'u visitor) = Some s"
  shows "\<exists>v'. visitor_for d h opcode opcode opcode_name v = Inr v'
            \<and> stream v' = Some (s\<lparr>pos := pos s + n\<rparr>)
            \<and> cur_opcode v' = cur_opcode v \<and> cur_opcode_name v' = cur_opcode_name v"
proof (cases "map_of (dispatch_table d) opcode")
  case None
  with ob have "dflt opcode (rest s) = Some n" by (simp add: operand_bytes_def)
  from dv [OF s None this n, of opcode_name] None show ?thesis
    by (simp add: visitor_for_def)
next
  case (Some r)
  show ?thesis
  proof (cases r)
    case OP_with_no_args
    with Some ob have "n = 0" by (simp add: operand_bytes_def)
    with Some OP_with_no_args s show ?thesis
      by (simp add: visitor_for_def)
  next
    case (Visitor_for_struct st)
    with Some ob obtain x where "structs d st (rest s) = Inr (x, n)"
      by (auto simp: operand_bytes_def split: sum.splits if_splits)
    with n have "struct_parse (structs d st) s = Inr (x, s\<lparr>pos := pos s + n\<rparr>)"
      by (simp add: struct_parse_def)
    with Some Visitor_for_struct s show ?thesis
      by (simp add: visitor_for_def)
  qed
qed

lemma decode_step_instruction:
  assumes dv: "\<And>opcode opcode_name (v :: 'u visitor) s n.
        stream v = Some s \<Longrightarrow> map_of (dispatch_table d) opcode = None \<Longrightarrow>
        dflt opcode (rest s) = Some n \<Longrightarrow> n \<le> length (rest s) \<Longrightarrow>
        \<exists>v'. default_visitor h opcode opcode_name v = Inr v'
            \<and> stream v' = Some (s\<lparr>pos := pos s + n\<rparr>)
            \<and> cur_opcode v' = cur_opcode v \<and> cur_opcode_name v' = cur_opcode_name v"
    and av: "\<And>v :: 'u visitor. \<exists>v'. after_visit h v = Inr v' \<and> stream v' = stream v"
    and nm: "map_of DW_OP_opcode2name (uint b) = Some opcode_name"
    and ob: "operand_bytes d dflt (uint b) (operands @ more_bytes) = Some (length operands)"
    and s: "stream (v :: 'u visitor) = Some \<lparr>data = pre @ b # operands @ more_bytes, pos = length pre\<rparr>"
  shows "\<exists>v' args. decode_step d h v = Decoded v' (Some (uint b), Some opcode_name, args)
      \<and> stream v' = Some \<lparr>data = pre @ b # operands @ more_bytes, pos = length pre + 1 + length operands\<rparr>"
proof -
  let ?s = "\<lparr>data = pre @ b # operands @ more_bytes, pos = length pre\<rparr>"
  define s1 where "s1 = ?s\<lparr>pos := pos ?s + 1\<rparr>"
  define v2 where "v2 = v\<lparr>stream := Some s1, cur_opcode := Some (uint b),
               cur_opcode_name := Some opcode_name\<rparr>"
  have lt: "pos ?s < length (data ?s)" by simp
  have b: "data ?s ! pos ?s = b" by simp
  have r: "rest s1 = operands @ more_bytes" by (simp add: rest_def s1_def)
  from b nm have nm': "map_of DW_OP_opcode2name (uint (data ?s ! pos ?s)) = Some opcode_name"
    by simp
  have step: "decode_step d h v =
      (case visitor_for d h (uint b) (uint b) opcode_name v2 of
         Inl (e, v2') \<Rightarrow> Raise e v2' []
       | Inr v3 \<Rightarrow>
           (case after_visit h v3 of
              Inl (e, v3') \<Rightarrow> Raise e v3' [call_of v3]
            | Inr v4 \<Rightarrow> Decoded v4 (call_of v3)))"
    unfolding decode_step_known [OF s lt nm'] Let_def b v2_def s1_def by (rule refl)
  have "\<exists>v'. visitor_for d h (uint b) (uint b) opcode_name v2 = Inr v'
            \<and> stream v' = Some (s1\<lparr>pos := pos s1 + length operands\<rparr>)
            \<and> cur_opcode v' = cur_opcode v2 \<and> cur_opcode_name v' = cur_opcode_name v2"
  proof (rule visitor_for_instruction)
    show "operand_bytes d dflt (uint b) (rest s1) = Some (length operands)"
      using ob by (simp only: r)
    show "length operands \<le> length (rest s1)" by (simp only: r) simp
    show "stream v2 = Some s1" by (simp add: v2_def)
  qed (rule dv)
  then obtain v3 where v3: "visitor_for d h (uint b) (uint b) opcode_name v2 = Inr v3"
    and s3: "stream v3 = Some \<lparr>data = pre @ b # operands @ more_bytes,
                              pos = length pre + 1 + length operands\<rparr>"
    and c3: "cur_opcode v3 = Some (uint b)" "cur_opcode_name v3 = Some opcode_name"
    by (auto simp: s1_def v2_def)
  from av [of v3] obtain v4 where v4: "after_visit h v3 = Inr v4" "stream v4 = stream v3"
    by blast
  have "decode_step d h v = Decoded v4 (Some (uint b), Some opcode_name, cur_args v3)"
    by (simp add: step v3 v4 call_of_def c3)
  with v4 s3 show ?thesis by auto
qed

lemma decode_instructions:
  assumes dv: "\<And>opcode opcode_name (v :: 'u visitor) s n.
        stream v = Some s \<Longrightarrow> map_of (dispatch_table d) opcode = None \<Longrightarrow>
        dflt opcode (rest s) = Some n \<Longrightarrow> n \<le> length (rest s) \<Longrightarrow>
        \<exists>v'. default_visitor h opcode opcode_name v = Inr v'
            \<and> stream v' = Some (s\<lparr>pos := pos s + n\<rparr>)
            \<and> cur_opcode v' = cur_opcode v \<and> cur_opcode_name v' = cur_opcode_name v"
    and av: "\<And>v :: 'u visitor. \<exists>v'. after_visit h v = Inr v' \<and> stream v' = stream v"
  shows "valid_instructions d dflt ins \<Longrightarrow>
     stream (v :: 'u visitor) = Some \<lparr>data = pre @ encode ins, pos = length pre\<rparr> \<Longrightarrow>
     \<exists>v' made. process_loop d h v calls = Some (Returned, v', calls @ made)
       \<and> map fst made = map (\<lambda>(b, operands). Some (uint b)) ins
       \<and> map (fst \<circ> snd) made = map (\<lambda>(b, operands). map_of DW_OP_opcode2name (uint b)) ins
       \<and> stream v' = Some \<lparr>data = pre @ encode ins, pos = length (pre @ encode ins)\<rparr>"
proof (induction ins arbitrary: v pre calls)
  case Nil
  then have "decode_step d h v = Exhausted"
    by (intro decode_step_exhausted [where s = "\<lparr>data = pre, pos = length pre\<rparr>"])
       (simp_all add: encode_Nil)
  then have "process_loop d h v calls = Some (Returned, v, calls @ [])"
    by (simp add: process_loop_Exhausted)
  with Nil show ?case by (auto simp: encode_Nil)
next
  case (Cons i ins)
  obtain b operands where i: "i = (b, operands)" by (cases i)
  from Cons.prems(1) obtain opcode_name where
    nm: "map_of DW_OP_opcode2name (uint b) = Some opcode_name"
    and ob: "operand_bytes d dflt (uint b) (operands @ encode ins) = Some (length operands)"
    and valid: "valid_instructions d dflt ins"
    by (auto simp: i)
  from Cons.prems(2) have
    s: "stream v = Some \<lparr>data = pre @ b # operands @ encode ins, pos = length pre\<rparr>"
    by (simp add: i encode_Cons)
  from decode_step_instruction [of d dflt h b opcode_name operands "encode ins" v pre,
      OF dv av nm ob s]
  obtain v1 args where
    step: "decode_step d h v = Decoded v1 (Some (uint b), Some opcode_name, args)"
    and s1: "stream v1 = Some \<lparr>data = pre @ b # operands @ encode ins,
                               pos = length pre + 1 + length operands\<rparr>"
    by blast
  from s1 have s1': "stream v1 = Some \<lparr>data = (pre @ b # operands) @ encode ins,
                               pos = length (pre @ b # operands)\<rparr>"
    by simp
  from Cons.IH [OF valid s1', of "calls @ [(Some (uint b), Some opcode_name, args)]"]
  obtain v' made where
    run: "process_loop d h v1 (calls @ [(Some (uint b), Some opcode_name, args)])
        = Some (Returned, v', (calls @ [(Some (uint b), Some opcode_name, args)]) @ made)"
    and m1: "map fst made = map (\<lambda>(b, operands). Some (uint b)) ins"
    and m2: "map (fst \<circ> snd) made = map (\<lambda>(b, operands). map_of DW_OP_opcode2name (uint b)) ins"
    and sv: "stream v' = Some \<lparr>data = (pre @ b # operands) @ encode ins,
                               pos = length ((pre @ b # operands) @ encode ins)\<rparr>"
    by blast
  let ?made = "(Some (uint b), Some opcode_name, args) # made"
  have "process_loop d h v calls = Some (Returned, v', calls @ ?made)"
    using run by (simp add: process_loop_Decoded [OF step])
  moreover have "map fst ?made = map (\<lambda>(b, operands). Some (uint b)) (i # ins)"
    using m1 by (simp add: i)
  moreover have "map (fst \<circ> snd) ?made
      = map (\<lambda>(b, operands). map_of DW_OP_opcode2name (uint b)) (i # ins)"
    using m2 nm by (simp add: i)
  moreover have "stream v' = Some \<lparr>data = pre @ encode (i # ins),
      pos = length (pre @ encode (i # ins))\<rparr>"
    using sv by (simp add: i encode_Cons)
  ultimately show ?case by blast
qed

subsection \<open>Claims about the decode loop\<close>

text \<open>
  Claim C5. Whenever a pass of the loop reads a byte that \<open>DW_OP_opcode2name\<close> has no entry
  for, the lookup raises (\<open>KeyError\<close>), the call of \<open>process_expr\<close> ends with that exception,
  and \<open>_after_visit\<close> is not called for the byte: the calls made are those made before.
  The statement holds for the state and the calls at the start of any pass.
\<close>

theorem unknown_opcode_raises:
  assumes "stream v = Some s" and "pos s < length (data s)"
    and "map_of DW_OP_opcode2name (uint (data s ! pos s)) = None"
  shows "process_loop d h v calls =
     Some (Raised KeyError,
           v\<lparr>stream := Some (s\<lparr>pos := pos s + 1\<rparr>), cur_opcode := Some (uint (data s ! pos s))\<rparr>,
           calls)"
  using decode_step_unknown [OF assms, of d h]
  by (simp add: process_loop_Raise)

theorem unknown_opcode_raises_witness:
  "process_expr \<lparr>structs = (\<lambda>st. one_byte), dispatch_table = []\<rparr> no_op
     \<lparr>stream = None, cur_opcode = None, cur_opcode_name = None, cur_args = [], consumer = ()\<rparr>
     (Byte_list [0x00, 0x12])
   = Some (Raised KeyError,
       \<lparr>stream = Some \<lparr>data = [0x00, 0x12], pos = 1\<rparr>, cur_opcode = Some 0,
        cur_opcode_name = None, cur_args = [], consumer = ()\<rparr>, [])"
  using unknown_opcode_raises [of
      "\<lparr>stream = Some \<lparr>data = [0x00, 0x12], pos = 0\<rparr>, cur_opcode = None,
        cur_opcode_name = None, cur_args = [], consumer = ()\<rparr>"
      "\<lparr>data = [0x00, 0x12], pos = 0\<rparr>"
      "\<lparr>structs = (\<lambda>st. one_byte), dispatch_table = []\<rparr>" no_op "[]"]
    process_expr_bytes [of "\<lparr>structs = (\<lambda>st. one_byte), dispatch_table = []\<rparr>" no_op
      "\<lparr>stream = None, cur_opcode = None, cur_opcode_name = None, cur_args = [], consumer = ()\<rparr>"
      "[0x00, 0x12]"]
  by (simp add: opcode2name_undefined_0)

text \<open>
  Claim C7. For every list of byte values, \<open>process_expr\<close> applied to the list does exactly
  what it does applied to a stream over the same bytes, positioned at their start: the
  same calls, the same final state and the same way of ending. The conversion of the list
  succeeds, and the stream is over the same bytes: the ordinals of its characters are the
  values of the list, in order.
\<close>

theorem byte_list_as_stream:
  assumes "\<forall>b \<in> set bytelist. 0 \<le> b \<and> b < 256"
  shows "bytelist2string bytelist = Inr (map word_of_int bytelist)
    \<and> map uint (map word_of_int bytelist :: byte list) = bytelist
    \<and> process_expr d h v (Byte_list bytelist)
      = process_expr d h v (File_like \<lparr>data = map word_of_int bytelist, pos = 0\<rparr>)"
proof -
  have ord: "map uint (map word_of_int bytelist :: byte list) = bytelist"
    using assms by (induction bytelist) (simp_all add: uint_word_of_int take_bit_int_eq_self)
  have "bytelist2string (map uint (map word_of_int bytelist :: byte list))
      = Inr (map word_of_int bytelist)"
    by (rule bytelist2string_of_bytes)
  with ord have conv: "bytelist2string bytelist = Inr (map word_of_int bytelist)" by simp
  have "process_expr d h v (Byte_list (map uint (map word_of_int bytelist :: byte list)))
      = process_loop d h (v\<lparr>stream := Some \<lparr>data = map word_of_int bytelist, pos = 0\<rparr>\<rparr>) []"
    by (rule process_expr_bytes)
  with ord conv show ?thesis by (simp add: process_expr_def)
qed

theorem byte_list_as_stream_witness:
  "process_expr example_decoder no_op new_visitor (Byte_list [0x12, 0x08, 0x2a, 0x96])
     = process_expr example_decoder no_op new_visitor
         (File_like \<lparr>data = [0x12, 0x08, 0x2a, 0x96], pos = 0\<rparr>)"
  using byte_list_as_stream [of "[0x12, 0x08, 0x2a, 0x96]" example_decoder no_op new_visitor]
  by simp

text \<open>
  Claim C8. Without an override both hooks raise \<open>NotImplementedError\<close>. So when the base
  class reads a defined opcode, \<open>process_expr\<close> ends with an exception: from the default
  visitor when the dispatch table has no entry for the opcode (\<open>_after_visit\<close> is not
  reached), from \<open>_after_visit\<close> when the entry's function returned, and otherwise with
  the exception of the entry's function. It never gets past the first instruction.
\<close>

theorem base_class_raises:
  assumes s: "stream v = Some s" and lt: "pos s < length (data s)"
    and nm: "map_of DW_OP_opcode2name (uint (data s ! pos s)) = Some opcode_name"
    and op: "opcode = uint (data s ! pos s)"
    and v2: "v2 = v\<lparr>stream := Some (s\<lparr>pos := pos s + 1\<rparr>), cur_opcode := Some opcode,
                    cur_opcode_name := Some opcode_name\<rparr>"
  shows "default_visitor GenericLocationExprVisitor opcode opcode_name v2
        = Inl (NotImplementedError, v2)
    \<and> (\<forall>v3 :: 'u visitor. after_visit GenericLocationExprVisitor v3 = Inl (NotImplementedError, v3))
    \<and> (\<exists>e v' made.
          process_loop d GenericLocationExprVisitor (v :: 'u visitor) calls
            = Some (Raised e, v', calls @ made)
        \<and> (map_of (dispatch_table d) opcode = None \<longrightarrow>
              e = NotImplementedError \<and> v' = v2 \<and> made = [])
        \<and> (\<forall>r v3. map_of (dispatch_table d) opcode = Some r
              \<and> visit d r opcode opcode_name v2 = Inr v3 \<longrightarrow>
              e = NotImplementedError \<and> v' = v3 \<and> made = [call_of v3])
        \<and> (\<forall>r e' v2'. map_of (dispatch_table d) opcode = Some r
              \<and> visit d r opcode opcode_name v2 = Inl (e', v2') \<longrightarrow>
              e = e' \<and> v' = v2' \<and> made = []))"
proof -
  let ?G = "GenericLocationExprVisitor :: 'u hooks"
  have step: "decode_step d ?G v =
      (case visitor_for d ?G opcode opcode opcode_name v2 of
         Inl (e, v2') \<Rightarrow> Raise e v2' []
       | Inr v3 \<Rightarrow> Raise NotImplementedError v3 [call_of v3])"
    unfolding decode_step_known [OF s lt nm] Let_def op [symmetric] v2 [symmetric]
    by (simp add: base_after_visit split: sum.splits)
  show ?thesis
  proof (cases "map_of (dispatch_table d) opcode")
    case None
    then have "decode_step d ?G v = Raise NotImplementedError v2 []"
      by (simp add: step visitor_for_def base_default_visitor)
    from process_loop_Raise [OF this, of calls] None show ?thesis
      by (simp add: base_default_visitor base_after_visit)
  next
    case (Some r)
    show ?thesis
    proof (cases "visit d r opcode opcode_name v2")
      case (Inl ev)
      obtain e' v2' where ev: "ev = (e', v2')" by (cases ev)
      with Some Inl have "decode_step d ?G v = Raise e' v2' []"
        by (simp add: step visitor_for_def)
      from process_loop_Raise [OF this, of calls] Some Inl ev show ?thesis
        by (simp add: base_default_visitor base_after_visit)
    next
      case (Inr v3)
      with Some have "decode_step d ?G v = Raise NotImplementedError v3 [call_of v3]"
        by (simp add: step visitor_for_def)
      from process_loop_Raise [OF this, of calls] Some Inr show ?thesis
        by (simp add: base_default_visitor base_after_visit)
    qed
  qed
qed

theorem base_class_raises_witness:
  "\<exists>d v0. init (\<lambda>st. one_byte) () = Inr (d, v0)
     \<and> process_expr d GenericLocationExprVisitor v0 (Byte_list [0x12])
       = Some (Raised NotImplementedError,
           \<lparr>stream = Some \<lparr>data = [0x12], pos = 1\<rparr>, cur_opcode = Some 0x12,
            cur_opcode_name = Some ''DW_OP_dup'', cur_args = [], consumer = ()\<rparr>,
           [(Some 0x12, Some ''DW_OP_dup'', [])])"
proof -
  from init_result [of "\<lambda>st. one_byte" "()"] obtain t where
    i: "init (\<lambda>st. one_byte) () =
        Inr (\<lparr>structs = (\<lambda>st. one_byte), dispatch_table = t\<rparr>,
             \<lparr>stream = None, cur_opcode = None, cur_opcode_name = None,
              cur_args = [], consumer = ()\<rparr>)"
    and t: "\<And>c. dispatch_get c = Inr (map_of t c)"
    by blast
  let ?d = "\<lparr>structs = (\<lambda>st. one_byte), dispatch_table = t\<rparr>"
  let ?s = "\<lparr>data = [0x12 :: byte], pos = 0\<rparr>"
  let ?v = "\<lparr>stream = Some ?s, cur_opcode = None, cur_opcode_name = None,
              cur_args = [], consumer = ()\<rparr>"
  let ?v2 = "\<lparr>stream = Some \<lparr>data = [0x12 :: byte], pos = 1\<rparr>, cur_opcode = Some 0x12,
              cur_opcode_name = Some ''DW_OP_dup'', cur_args = [], consumer = ()\<rparr>"
  have dup: "map_of t 0x12 = Some OP_with_no_args"
    using t [of "0x12"] by (simp add: dispatch_get_dup)
  have "default_visitor GenericLocationExprVisitor 0x12 ''DW_OP_dup'' ?v2 = Inl (NotImplementedError, ?v2)
    \<and> (\<forall>v3 :: unit visitor. after_visit GenericLocationExprVisitor v3 = Inl (NotImplementedError, v3))
    \<and> (\<exists>e v' made.
          process_loop ?d GenericLocationExprVisitor ?v [] = Some (Raised e, v', [] @ made)
        \<and> (map_of (dispatch_table ?d) 0x12 = None \<longrightarrow>
              e = NotImplementedError \<and> v' = ?v2 \<and> made = [])
        \<and> (\<forall>r v3. map_of (dispatch_table ?d) 0x12 = Some r
              \<and> visit ?d r 0x12 ''DW_OP_dup'' ?v2 = Inr v3 \<longrightarrow>
              e = NotImplementedError \<and> v' = v3 \<and> made = [call_of v3])
        \<and> (\<forall>r e' v2'. map_of (dispatch_table ?d) 0x12 = Some r
              \<and> visit ?d r 0x12 ''DW_OP_dup'' ?v2 = Inl (e', v2') \<longrightarrow>
              e = e' \<and> v' = v2' \<and> made = []))"
    by (rule base_class_raises [where s = ?s]) (simp_all add: opcode2name_examples)
  then obtain e v' made where
    run: "process_loop ?d GenericLocationExprVisitor ?v [] = Some (Raised e, v', [] @ made)"
    and hit: "\<forall>r v3. map_of (dispatch_table ?d) 0x12 = Some r
              \<and> visit ?d r 0x12 ''DW_OP_dup'' ?v2 = Inr v3 \<longrightarrow>
              e = NotImplementedError \<and> v' = v3 \<and> made = [call_of v3]"
    by blast
  from hit [rule_format, of OP_with_no_args ?v2] dup
  have "e = NotImplementedError \<and> v' = ?v2 \<and> made = [call_of ?v2]" by simp
  with run have "process_loop ?d GenericLocationExprVisitor ?v []
      = Some (Raised NotImplementedError, ?v2, [(Some 0x12, Some ''DW_OP_dup'', [])])"
    by (simp add: call_of_def)
  with i process_expr_bytes [of ?d GenericLocationExprVisitor
      "\<lparr>stream = None, cur_opcode = None, cur_opcode_name = None, cur_args = [], consumer = ()\<rparr>"
      "[0x12]"]
  show ?thesis by simp
qed



text \<open>
  Claim C9 says that \<open>process_expr\<close> ends on every finite stream. The loop has no guard of
  its own: with a consumer whose \<open>_after_visit\<close> seeks the stream back to its start, the
  call on the one byte of \<open>DW_OP_dup\<close> never returns.
\<close>

theorem rewinding_hook_counterexample:
  "process_expr example_decoder rewinding new_visitor (Byte_list [0x12]) = None"
proof (cases "process_expr example_decoder rewinding new_visitor (Byte_list [0x12])")
  case None
  then show ?thesis .
next
  case (Some r)
  with process_expr_bytes [of example_decoder rewinding new_visitor "[0x12]"]
  have "process_loop example_decoder rewinding
      (new_visitor\<lparr>stream := Some \<lparr>data = [0x12], pos = 0\<rparr>\<rparr>) [] = Some r"
    by simp
  from rewinding_never_returns [OF this] show ?thesis by (simp add: new_visitor_def)
qed

text \<open>
  Claim C9, as the code has it. \<open>process_expr\<close> ends on every stream when the consumer's
  two hooks, on returning, leave no more bytes to read than they found: every completed
  pass then leaves strictly fewer bytes to read, so the loop is left after finitely many
  passes, by an exception or, when it returns, with no byte left to read.
\<close>

theorem process_expr_terminates:
  assumes "\<And>opcode opcode_name v v'.
        default_visitor h opcode opcode_name v = Inr v' \<Longrightarrow> remaining v' \<le> remaining v"
    and "\<And>v v'. after_visit h v = Inr v' \<Longrightarrow> remaining v' \<le> remaining v"
  shows "\<exists>out v' calls. process_expr d h v expr = Some (out, v', calls)
           \<and> (out = Returned \<longrightarrow> remaining v' = 0)"
proof -
  have loop: "\<exists>out v' calls'. process_loop d h v0 [] = Some (out, v', calls')
           \<and> (out = Returned \<longrightarrow> remaining v' = 0)" for v0
  proof (rule process_loop_returns)
    fix opcode opcode_name and v v' :: "'a visitor"
    assume "default_visitor h opcode opcode_name v = Inr v'"
    then show "remaining v' \<le> remaining v" by (rule assms(1))
  next
    fix v v' :: "'a visitor"
    assume "after_visit h v = Inr v'"
    then show "remaining v' \<le> remaining v" by (rule assms(2))
  qed
  show ?thesis
  proof (cases expr)
    case (File_like s)
    with loop [of "v\<lparr>stream := Some s\<rparr>"] show ?thesis by (simp add: process_expr_def)
  next
    case (Byte_list bytelist)
    show ?thesis
    proof (cases "bytelist2string bytelist")
      case (Inl e)
      with Byte_list show ?thesis by (simp add: process_expr_def)
    next
      case (Inr string)
      with Byte_list loop [of "v\<lparr>stream := Some (StringIO string)\<rparr>"] show ?thesis
        by (simp add: process_expr_def)
    qed
  qed
qed

theorem process_expr_terminates_witness:
  "\<exists>v' calls.
      process_expr example_decoder no_op new_visitor (Byte_list [0x08, 0x2a, 0x96])
        = Some (Returned, v', calls)
    \<and> remaining v' = 0"
proof -
  let ?ins = "[(0x08, [0x2a]), (0x96, [])] :: instruction list"
  have valid: "valid_instructions example_decoder no_operands ?ins"
    by (simp add: opcode2name_examples operand_bytes_def example_table_lookups example_structs
        one_byte_def encode_def no_operands_def)
  let ?v = "new_visitor\<lparr>stream := Some \<lparr>data = [0x08, 0x2a, 0x96], pos = 0\<rparr>\<rparr>"
  have "stream ?v = Some \<lparr>data = [] @ encode ?ins, pos = length ([] :: byte list)\<rparr>"
    by (simp add: encode_def)
  from decode_instructions [of example_decoder no_operands no_op ?ins ?v "[]" "[]", OF _ _ valid this]
  obtain v1 made where "process_loop example_decoder no_op ?v [] = Some (Returned, v1, [] @ made)"
    by (auto simp: no_op_def no_operands_def)
  with process_expr_bytes [of example_decoder no_op new_visitor "[0x08, 0x2a, 0x96]"]
  have run: "process_expr example_decoder no_op new_visitor (Byte_list [0x08, 0x2a, 0x96])
      = Some (Returned, v1, made)"
    by simp
  have "\<exists>out v' calls.
      process_expr example_decoder no_op new_visitor (Byte_list [0x08, 0x2a, 0x96])
        = Some (out, v', calls)
      \<and> (out = Returned \<longrightarrow> remaining v' = 0)"
    by (rule process_expr_terminates) (simp_all add: no_op_def)
  with run have "remaining v1 = 0" by simp
  with run show ?thesis by blast
qed

text \<open>
  Claim C1 says that two valid instructions give two calls of \<open>_after_visit\<close>. With the
  hooks of the class itself, on the bytes of two \<open>DW_OP_dup\<close>, \<open>process_expr\<close> makes one call
  and ends with the \<open>NotImplementedError\<close> that call raises.
\<close>

theorem base_hooks_counterexample:
  "valid_instructions example_decoder no_operands [(0x12, []), (0x12, [])]
   \<and> map uint (encode [(0x12, []), (0x12, [])]) = [0x12, 0x12]
   \<and> process_expr example_decoder GenericLocationExprVisitor new_visitor (Byte_list [0x12, 0x12])
     = Some (Raised NotImplementedError,
         \<lparr>stream = Some \<lparr>data = [0x12, 0x12], pos = 1\<rparr>, cur_opcode = Some 0x12,
          cur_opcode_name = Some ''DW_OP_dup'', cur_args = [], consumer = ()\<rparr>,
         [(Some 0x12, Some ''DW_OP_dup'', [])])"
proof -
  let ?v = "new_visitor\<lparr>stream := Some \<lparr>data = [0x12, 0x12], pos = 0\<rparr>\<rparr>"
  let ?v3 = "\<lparr>stream = Some \<lparr>data = [0x12, 0x12], pos = 1\<rparr>, cur_opcode = Some 0x12,
          cur_opcode_name = Some ''DW_OP_dup'', cur_args = [], consumer = ()\<rparr>"
  have valid: "valid_instructions example_decoder no_operands [(0x12, []), (0x12, [])]"
    by (simp add: opcode2name_examples operand_bytes_def example_table_lookups)
  have enc: "map uint (encode [(0x12, []), (0x12, [])]) = [0x12, 0x12]"
    by (simp add: encode_def)
  have "decode_step example_decoder GenericLocationExprVisitor ?v
      = Raise NotImplementedError ?v3 [(Some 0x12, Some ''DW_OP_dup'', [])]"
    unfolding decode_step_known [of ?v "\<lparr>data = [0x12, 0x12], pos = 0\<rparr>" "''DW_OP_dup''",
        simplified, OF opcode2name_examples(1)]
    by (simp add: visitor_for_def example_table_lookups base_after_visit call_of_def
        new_visitor_def)
  then have "process_loop example_decoder GenericLocationExprVisitor ?v []
      = Some (Raised NotImplementedError, ?v3, [(Some 0x12, Some ''DW_OP_dup'', [])])"
    by (simp add: process_loop_Raise)
  with process_expr_bytes [of example_decoder GenericLocationExprVisitor new_visitor "[0x12, 0x12]"]
  have "process_expr example_decoder GenericLocationExprVisitor new_visitor (Byte_list [0x12, 0x12])
      = Some (Raised NotImplementedError, ?v3, [(Some 0x12, Some ''DW_OP_dup'', [])])"
    by simp
  with valid enc show ?thesis by (simp only: simp_thms)
qed

text \<open>
  Claim C1, as the code has it. For a consumer whose \<open>_after_visit\<close> returns and leaves the
  stream alone, and whose default visitor reads the operand bytes of the opcodes left to
  it and leaves \<open>_cur_opcode\<close> and \<open>_cur_opcode_name\<close> alone: on the bytes of \<open>N\<close> valid
  instructions, one after the other, \<open>process_expr\<close> returns after calling \<open>_after_visit\<close>
  exactly \<open>N\<close> times, once for each instruction and in their order, with the opcode and the
  name of that instruction; the stream ends at the end of the input, and the bytes of the
  instructions, one opcode byte and the operand bytes each, add up to the length of the
  input. On the empty input it returns at once, with no call, whatever the hooks.
\<close>

theorem process_expr_decodes_all:
  assumes dv: "\<And>opcode opcode_name (v :: 'u visitor) s n.
        stream v = Some s \<Longrightarrow> map_of (dispatch_table d) opcode = None \<Longrightarrow>
        dflt opcode (rest s) = Some n \<Longrightarrow> n \<le> length (rest s) \<Longrightarrow>
        \<exists>v'. default_visitor h opcode opcode_name v = Inr v'
            \<and> stream v' = Some (s\<lparr>pos := pos s + n\<rparr>)
            \<and> cur_opcode v' = cur_opcode v \<and> cur_opcode_name v' = cur_opcode_name v"
    and av: "\<And>v :: 'u visitor. \<exists>v'. after_visit h v = Inr v' \<and> stream v' = stream v"
    and valid: "valid_instructions d dflt ins"
  shows "(\<exists>v' calls.
        process_expr d h (v :: 'u visitor) (Byte_list (map uint (encode ins)))
          = Some (Returned, v', calls)
      \<and> length calls = length ins
      \<and> map fst calls = map (\<lambda>(b, operands). Some (uint b)) ins
      \<and> map (fst \<circ> snd) calls = map (\<lambda>(b, operands). map_of DW_OP_opcode2name (uint b)) ins
      \<and> stream v' = Some \<lparr>data = encode ins, pos = length (encode ins)\<rparr>
      \<and> (\<Sum>(b, operands) \<leftarrow> ins. 1 + length operands) = length (encode ins))
    \<and> process_expr d0 h0 (v0 :: 'u visitor) (Byte_list [])
        = Some (Returned, v0\<lparr>stream := Some \<lparr>data = [], pos = 0\<rparr>\<rparr>, [])"
proof
  let ?v = "v\<lparr>stream := Some \<lparr>data = encode ins, pos = 0\<rparr>\<rparr>"
  have "stream ?v = Some \<lparr>data = [] @ encode ins, pos = length ([] :: byte list)\<rparr>"
    by simp
  from decode_instructions [of d dflt h ins ?v "[]" "[]", OF dv av valid this]
  obtain v' made where
    run: "process_loop d h ?v [] = Some (Returned, v', [] @ made)"
    and m1: "map fst made = map (\<lambda>(b, operands). Some (uint b)) ins"
    and m2: "map (fst \<circ> snd) made = map (\<lambda>(b, operands). map_of DW_OP_opcode2name (uint b)) ins"
    and sv: "stream v' = Some \<lparr>data = [] @ encode ins, pos = length ([] @ encode ins)\<rparr>"
    by blast
  from m1 have "length made = length ins" by (rule map_eq_imp_length_eq)
  with run m1 m2 sv length_encode [of ins]
  show "\<exists>v' calls.
        process_expr d h v (Byte_list (map uint (encode ins))) = Some (Returned, v', calls)
      \<and> length calls = length ins
      \<and> map fst calls = map (\<lambda>(b, operands). Some (uint b)) ins
      \<and> map (fst \<circ> snd) calls = map (\<lambda>(b, operands). map_of DW_OP_opcode2name (uint b)) ins
      \<and> stream v' = Some \<lparr>data = encode ins, pos = length (encode ins)\<rparr>
      \<and> (\<Sum>(b, operands) \<leftarrow> ins. 1 + length operands) = length (encode ins)"
    by (simp add: process_expr_bytes)
next
  let ?v = "v0\<lparr>stream := Some \<lparr>data = [], pos = 0\<rparr>\<rparr>"
  have "decode_step d0 h0 ?v = Exhausted"
    by (rule decode_step_exhausted [where s = "\<lparr>data = [], pos = 0\<rparr>"]) simp_all
  then show "process_expr d0 h0 v0 (Byte_list []) = Some (Returned, ?v, [])"
    by (simp add: process_expr_def StringIO_def process_loop_Exhausted)
qed

theorem process_expr_decodes_all_witness:
  "\<exists>v' calls.
      process_expr example_decoder no_op new_visitor (Byte_list [0x12, 0x08, 0x2a, 0x96])
        = Some (Returned, v', calls)
    \<and> length calls = 3
    \<and> map fst calls = [Some 0x12, Some 0x08, Some 0x96]
    \<and> map (fst \<circ> snd) calls = [Some ''DW_OP_dup'', Some ''DW_OP_const1u'', Some ''DW_OP_nop'']
    \<and> stream v' = Some \<lparr>data = [0x12, 0x08, 0x2a, 0x96], pos = 4\<rparr>"
proof -
  let ?ins = "[(0x12, []), (0x08, [0x2a]), (0x96, [])] :: instruction list"
  have valid: "valid_instructions example_decoder no_operands ?ins"
    by (simp add: opcode2name_examples operand_bytes_def example_table_lookups example_structs
        one_byte_def encode_def no_operands_def)
  have enc: "encode ?ins = [0x12, 0x08, 0x2a, 0x96]" by (simp add: encode_def)
  have "(\<exists>v' calls.
        process_expr example_decoder no_op new_visitor (Byte_list (map uint (encode ?ins)))
          = Some (Returned, v', calls)
      \<and> length calls = length ?ins
      \<and> map fst calls = map (\<lambda>(b, operands). Some (uint b)) ?ins
      \<and> map (fst \<circ> snd) calls = map (\<lambda>(b, operands). map_of DW_OP_opcode2name (uint b)) ?ins
      \<and> stream v' = Some \<lparr>data = encode ?ins, pos = length (encode ?ins)\<rparr>
      \<and> (\<Sum>(b, operands) \<leftarrow> ?ins. 1 + length operands) = length (encode ?ins))
    \<and> process_expr example_decoder no_op new_visitor (Byte_list [])
        = Some (Returned, new_visitor\<lparr>stream := Some \<lparr>data = [], pos = 0\<rparr>\<rparr>, [])"
    by (rule process_expr_decodes_all [where dflt = no_operands, OF _ _ valid])
       (simp_all add: no_op_def no_operands_def)
  then obtain v' calls where
    "process_expr example_decoder no_op new_visitor (Byte_list (map uint (encode ?ins)))
       = Some (Returned, v', calls)"
    "length calls = length ?ins"
    "map fst calls = map (\<lambda>(b, operands). Some (uint b)) ?ins"
    "map (fst \<circ> snd) calls = map (\<lambda>(b, operands). map_of DW_OP_opcode2name (uint b)) ?ins"
    "stream v' = Some \<lparr>data = encode ?ins, pos = length (encode ?ins)\<rparr>"
    by blast
  then have "process_expr example_decoder no_op new_visitor (Byte_list [0x12, 0x08, 0x2a, 0x96])
        = Some (Returned, v', calls)
    \<and> length calls = 3
    \<and> map fst calls = [Some 0x12, Some 0x08, Some 0x96]
    \<and> map (fst \<circ> snd) calls = [Some ''DW_OP_dup'', Some ''DW_OP_const1u'', Some ''DW_OP_nop'']
    \<and> stream v' = Some \<lparr>data = [0x12, 0x08, 0x2a, 0x96], pos = 4\<rparr>"
    by (simp add: enc opcode2name_examples)
  then show ?thesis by (intro exI)
qed

end
